theory Spec2Isabelle
  imports Complex_Main "HOL-Library.AList"
begin

section \<open>Signatures\<close>

text \<open>
  \<^verbatim>\<open>interface SyncSignature { size: number; mtimeSec: number; }\<close>
  Sizes and whole-second timestamps are integers. The field \<open>size\<close> is
  written \<open>size_sig\<close>, since \<open>size\<close> is a constant of HOL.
\<close>

record SyncSignature =
  size_sig :: int
  mtimeSec :: int

text \<open>
  \<^verbatim>\<open>return a.size === b.size && Math.abs(a.mtimeSec - b.mtimeSec) <= 2;\<close>
\<close>

definition isSameSignature :: "SyncSignature \<Rightarrow> SyncSignature \<Rightarrow> bool" where
  "isSameSignature a b \<longleftrightarrow> size_sig a = size_sig b \<and> \<bar>mtimeSec a - mtimeSec b\<bar> \<le> 2"

section \<open>The environment of a job's action\<close>

text \<open>
  The transport (ssh2's SFTP session) and the local file system are outside
  the program. Every call to them is recorded in \<open>calls\<close>; what a call
  reports is read from \<open>outcomeOf\<close>: \<open>Done\<close> (the callback reports
  no error), \<open>Failed\<close> (the callback reports an error) or \<open>TimedOut\<close>
  (\<open>withTimeout\<close> rejects first, or \<open>getSftp\<close> has no session).
\<close>

datatype call =
    MkdirRemote string
  | StatLocal string
  | StatRemote string
  | FastPut string string
  | RenameRemote string string
  | CopyFile string string
  | FastGet string string
  | MkdirLocal string
  | RenameLocal string string
  | Unlink string

datatype outcome = Done | Failed | TimedOut

datatype error =
    MissingWorkspaceTarget
  | TransferAborted
  | Rejected call

text \<open>A local file as \<open>fs.Stats\<close> shows it (size, mtimeMs) and its content.\<close>

record lfile =
  l_size :: int
  l_mtimeMs :: int
  l_data :: string

text \<open>A remote file as ssh2's \<open>Stats\<close> shows it (size, mtime in seconds).\<close>

record rfile =
  r_size :: int
  r_mtime :: int
  r_data :: string

datatype PendingChangeType = Upsert | Delete

record world =
  targetOk :: bool
  now :: nat
  outcomeOf :: "call \<Rightarrow> outcome"
  lfiles :: "string \<rightharpoonup> lfile"
  ldirs :: "string list"
  rfiles :: "string \<rightharpoonup> rfile"
  rdirs :: "string list"
  lastSyncedSignature :: "string \<rightharpoonup> SyncSignature"
  pendingChanges :: "string \<rightharpoonup> PendingChangeType"
  ignoreWatcherUntil :: "string \<rightharpoonup> nat"
  conflicts :: "(string \<times> string \<times> string) list"
  calls :: "call list"

text \<open>
  \<open>targetOk\<close> stands for \<^verbatim>\<open>target && this.connection\<close>; \<open>now\<close> is
  \<^verbatim>\<open>Date.now()\<close>, which does not advance during one action.
  \<^verbatim>\<open>vscode.Uri.file(p).fsPath\<close> is the identity on the normalised POSIX
  paths of the model.
\<close>

definition normalizePath :: "string \<Rightarrow> string" where
  "normalizePath p = p"

definition logCall :: "call \<Rightarrow> world \<Rightarrow> world" where
  "logCall c w = w\<lparr>calls := calls w @ [c]\<rparr>"

subsection \<open>Paths\<close>

text \<open>\<^verbatim>\<open>s.split('/')\<close>\<close>

fun split_slash :: "string \<Rightarrow> string list" where
  "split_slash [] = [[]]"
| "split_slash (c # cs) =
     (if c = CHR ''/'' then [] # split_slash cs
      else (case split_slash cs of [] \<Rightarrow> [[c]] | p # ps \<Rightarrow> (c # p) # ps))"

text \<open>
  \<^verbatim>\<open>path.posix.dirname\<close> as Node implements it: the scan runs from the last
  character down to index 1, skips trailing slashes, and cuts at the first
  slash after a non-slash character.
\<close>

definition dirname :: "string \<Rightarrow> string" where
  "dirname p =
     (case p of
        [] \<Rightarrow> ''.''
      | c # cs \<Rightarrow>
          (case dropWhile (\<lambda>x. x \<noteq> CHR ''/'') (dropWhile (\<lambda>x. x = CHR ''/'') (rev cs)) of
             [] \<Rightarrow> (if c = CHR ''/'' then ''/'' else ''.'')
           | _ # rest \<Rightarrow> (if c = CHR ''/'' \<and> rest = [] then ''//'' else c # rev rest)))"

text \<open>
  \<^verbatim>\<open>path.posix.join(current, part)\<close> for a normalised \<open>current\<close> and one
  segment \<open>part\<close>; the segments \<open>.\<close> and \<open>..\<close> are not resolved.
\<close>

definition joinPosix :: "string \<Rightarrow> string \<Rightarrow> string" where
  "joinPosix current part =
     (if current = [] then part
      else if last current = CHR ''/'' then current @ part
      else current @ ''/'' @ part)"

text \<open>The directories \<open>ensureRemoteDir\<close> visits, outermost first.\<close>

fun dirChain :: "string \<Rightarrow> string list \<Rightarrow> string list" where
  "dirChain current [] = []"
| "dirChain current (part # parts) =
     joinPosix current part # dirChain (joinPosix current part) parts"

definition remoteDirs :: "string \<Rightarrow> string list" where
  "remoteDirs remoteDir =
     dirChain (if take 1 remoteDir = ''/'' then ''/'' else [])
              (filter (\<lambda>s. s \<noteq> []) (split_slash remoteDir))"

text \<open>\<^verbatim>\<open>`${n}`\<close> for a non-negative integer.\<close>

fun decimal :: "nat \<Rightarrow> string" where
  "decimal n =
     (if n < 10 then [''0123456789'' ! n]
      else decimal (n div 10) @ [''0123456789'' ! (n mod 10)])"

subsection \<open>Remote and local primitives\<close>

text \<open>
  \<open>ensureRemoteDir\<close>: one \<open>mkdir\<close> per directory of the chain. The callback
  resolves whatever \<open>mkdir\<close> reports, so only a timeout raises.
\<close>

fun mkdirAll :: "string list \<Rightarrow> world \<Rightarrow> error option \<times> world" where
  "mkdirAll [] w = (None, w)"
| "mkdirAll (d # ds) w =
     (let w1 = logCall (MkdirRemote d) w in
      case outcomeOf w (MkdirRemote d) of
        TimedOut \<Rightarrow> (Some (Rejected (MkdirRemote d)), w1)
      | Failed \<Rightarrow> mkdirAll ds w1
      | Done \<Rightarrow> mkdirAll ds (if d \<in> set (rdirs w1) then w1 else w1\<lparr>rdirs := rdirs w1 @ [d]\<rparr>))"

definition ensureRemoteDir :: "string \<Rightarrow> world \<Rightarrow> error option \<times> world" where
  "ensureRemoteDir remoteDir w = mkdirAll (remoteDirs remoteDir) w"

text \<open>\<open>statRemote\<close>: the session's view of the file, or a rejection.\<close>

definition statRemote :: "string \<Rightarrow> world \<Rightarrow> rfile option \<times> world" where
  "statRemote remotePath w =
     (let w1 = logCall (StatRemote remotePath) w in
      case outcomeOf w (StatRemote remotePath) of
        Done \<Rightarrow> (rfiles w remotePath, w1)
      | _ \<Rightarrow> (None, w1))"

text \<open>\<^verbatim>\<open>fs.promises.stat(localPath)\<close>\<close>

definition statLocal :: "string \<Rightarrow> world \<Rightarrow> lfile option \<times> world" where
  "statLocal localPath w =
     (let w1 = logCall (StatLocal localPath) w in
      case outcomeOf w (StatLocal localPath) of
        Done \<Rightarrow> (lfiles w localPath, w1)
      | _ \<Rightarrow> (None, w1))"

text \<open>
  \<open>fastPut\<close>: an aborted signal raises before the transport is called; a
  successful call leaves the local content at the remote path.
\<close>

definition fastPut :: "string \<Rightarrow> string \<Rightarrow> bool \<Rightarrow> world \<Rightarrow> error option \<times> world" where
  "fastPut localPath remotePath aborted w =
     (if aborted then (Some TransferAborted, w)
      else
        (let w1 = logCall (FastPut localPath remotePath) w in
         case (outcomeOf w (FastPut localPath remotePath), lfiles w localPath) of
           (Done, Some f) \<Rightarrow>
             (None, w1\<lparr>rfiles := (rfiles w1)(remotePath \<mapsto>
                \<lparr>r_size = l_size f, r_mtime = int (now w div 1000), r_data = l_data f\<rparr>)\<rparr>)
         | _ \<Rightarrow> (Some (Rejected (FastPut localPath remotePath)), w1)))"

definition renameRemote :: "string \<Rightarrow> string \<Rightarrow> world \<Rightarrow> error option \<times> world" where
  "renameRemote from to w =
     (let w1 = logCall (RenameRemote from to) w in
      case (outcomeOf w (RenameRemote from to), rfiles w from) of
        (Done, Some f) \<Rightarrow> (None, w1\<lparr>rfiles := (rfiles w1)(from := None, to \<mapsto> f)\<rparr>)
      | _ \<Rightarrow> (Some (Rejected (RenameRemote from to)), w1))"

definition fastGet :: "string \<Rightarrow> string \<Rightarrow> bool \<Rightarrow> world \<Rightarrow> error option \<times> world" where
  "fastGet remotePath localPath aborted w =
     (if aborted then (Some TransferAborted, w)
      else
        (let w1 = logCall (FastGet remotePath localPath) w in
         case (outcomeOf w (FastGet remotePath localPath), rfiles w remotePath) of
           (Done, Some f) \<Rightarrow>
             (None, w1\<lparr>lfiles := (lfiles w1)(localPath \<mapsto>
                \<lparr>l_size = r_size f, l_mtimeMs = int (now w), l_data = r_data f\<rparr>)\<rparr>)
         | _ \<Rightarrow> (Some (Rejected (FastGet remotePath localPath)), w1)))"

text \<open>\<^verbatim>\<open>fs.promises.copyFile(src, dst)\<close>\<close>

definition copyFile :: "string \<Rightarrow> string \<Rightarrow> world \<Rightarrow> error option \<times> world" where
  "copyFile src dst w =
     (let w1 = logCall (CopyFile src dst) w in
      case (outcomeOf w (CopyFile src dst), lfiles w src) of
        (Done, Some f) \<Rightarrow>
          (None, w1\<lparr>lfiles := (lfiles w1)(dst \<mapsto> f\<lparr>l_mtimeMs := int (now w)\<rparr>)\<rparr>)
      | _ \<Rightarrow> (Some (Rejected (CopyFile src dst)), w1))"

text \<open>\<^verbatim>\<open>fs.promises.mkdir(dir, { recursive: true })\<close>\<close>

definition mkdirLocal :: "string \<Rightarrow> world \<Rightarrow> error option \<times> world" where
  "mkdirLocal dir w =
     (let w1 = logCall (MkdirLocal dir) w in
      case outcomeOf w (MkdirLocal dir) of
        Done \<Rightarrow> (None, if dir \<in> set (ldirs w1) then w1 else w1\<lparr>ldirs := ldirs w1 @ [dir]\<rparr>)
      | _ \<Rightarrow> (Some (Rejected (MkdirLocal dir)), w1))"

text \<open>\<^verbatim>\<open>fs.promises.rename(from, to)\<close>\<close>

definition renameLocal :: "string \<Rightarrow> string \<Rightarrow> world \<Rightarrow> error option \<times> world" where
  "renameLocal from to w =
     (let w1 = logCall (RenameLocal from to) w in
      case (outcomeOf w (RenameLocal from to), lfiles w from) of
        (Done, Some f) \<Rightarrow> (None, w1\<lparr>lfiles := (lfiles w1)(from := None, to \<mapsto> f)\<rparr>)
      | _ \<Rightarrow> (Some (Rejected (RenameLocal from to)), w1))"

definition markPathIgnored :: "string \<Rightarrow> nat \<Rightarrow> world \<Rightarrow> world" where
  "markPathIgnored localPath durationMs w =
     w\<lparr>ignoreWatcherUntil := (ignoreWatcherUntil w)(normalizePath localPath \<mapsto> now w + durationMs)\<rparr>"

subsection \<open>Conflict artifacts\<close>

definition localConflictPath :: "string \<Rightarrow> nat \<Rightarrow> string" where
  "localConflictPath localPath ts = localPath @ ''.conflict.LOCAL.'' @ decimal ts"

definition remoteConflictPath :: "string \<Rightarrow> nat \<Rightarrow> string" where
  "remoteConflictPath localPath ts = localPath @ ''.conflict.REMOTE.'' @ decimal ts"

text \<open>
  \<open>createConflictArtifacts\<close>: both copies are attempted and a failure of
  either is swallowed (\<^verbatim>\<open>.catch(() => undefined)\<close>); the conflict is
  recorded with \<open>treeDataProvider.addConflict\<close> in every case, which puts
  it in front of the older ones (\<^verbatim>\<open>this.conflicts.unshift\<close>). The fetch
  is made without a signal.
\<close>

definition createConflictArtifacts :: "string \<Rightarrow> string \<Rightarrow> world \<Rightarrow> world" where
  "createConflictArtifacts localPath remotePath w =
     (let ts = now w;
          localConflict = localConflictPath localPath ts;
          remoteConflict = remoteConflictPath localPath ts;
          w1 = markPathIgnored localConflict 30000 w;
          w2 = markPathIgnored remoteConflict 30000 w1;
          w3 = snd (copyFile localPath localConflict w2);
          w4 = snd (fastGet remotePath remoteConflict False w3)
      in w4\<lparr>conflicts := (localPath, localConflict, remoteConflict) # conflicts w4\<rparr>)"

subsection \<open>The actions of upload and download jobs\<close>

text \<open>The calls that transfer onto the remote tree: a put or a remote rename.\<close>

fun isPutOrRename :: "call \<Rightarrow> bool" where
  "isPutOrRename (FastPut _ _) = True"
| "isPutOrRename (RenameRemote _ _) = True"
| "isPutOrRename _ = False"

text \<open>The calls that transfer onto the local tree: a get or a local rename.\<close>

fun isGetOrRename :: "call \<Rightarrow> bool" where
  "isGetOrRename (FastGet _ _) = True"
| "isGetOrRename (RenameLocal _ _) = True"
| "isGetOrRename _ = False"

definition localSignatureOf :: "lfile \<Rightarrow> SyncSignature" where
  "localSignatureOf f = \<lparr>size_sig = l_size f, mtimeSec = l_mtimeMs f div 1000\<rparr>"

definition remoteSignatureOf :: "rfile \<Rightarrow> SyncSignature" where
  "remoteSignatureOf f = \<lparr>size_sig = r_size f, mtimeSec = r_mtime f\<rparr>"

definition tempRemotePath :: "string \<Rightarrow> string" where
  "tempRemotePath remotePath = remotePath @ ''.__uploading__''"

definition tempLocalPath :: "string \<Rightarrow> string" where
  "tempLocalPath localPath = localPath @ ''.__downloading__''"

text \<open>
  The \<open>run\<close> closure of \<open>createUploadJob\<close>. The result is the error the
  promise rejects with, if any, and the world the action leaves.
\<close>

definition uploadRun :: "string \<Rightarrow> string \<Rightarrow> bool \<Rightarrow> world \<Rightarrow> error option \<times> world" where
  "uploadRun localPath remotePath aborted w =
     (if \<not> targetOk w then (Some MissingWorkspaceTarget, w)
      else
        case ensureRemoteDir (dirname remotePath) w of
          (Some e, w1) \<Rightarrow> (Some e, w1)
        | (None, w1) \<Rightarrow>
            (case statLocal localPath w1 of
               (None, w2) \<Rightarrow> (Some (Rejected (StatLocal localPath)), w2)
             | (Some localStat, w2) \<Rightarrow>
                 (let (remoteStat, w3) = statRemote remotePath w2;
                      localSignature = localSignatureOf localStat
                  in
                  if (case remoteStat of None \<Rightarrow> False
                      | Some rs \<Rightarrow> isSameSignature localSignature (remoteSignatureOf rs))
                  then (None, w3\<lparr>lastSyncedSignature :=
                                   (lastSyncedSignature w3)(localPath \<mapsto> localSignature)\<rparr>)
                  else if (case (lastSyncedSignature w3 localPath, remoteStat) of
                             (Some known, Some rs) \<Rightarrow>
                               \<not> isSameSignature known localSignature
                               \<and> \<not> isSameSignature known (remoteSignatureOf rs)
                           | _ \<Rightarrow> False)
                  then (None, createConflictArtifacts localPath remotePath w3)
                  else
                    (case fastPut localPath (tempRemotePath remotePath) aborted w3 of
                       (Some e, w4) \<Rightarrow> (Some e, w4)
                     | (None, w4) \<Rightarrow>
                         (case renameRemote (tempRemotePath remotePath) remotePath w4 of
                            (Some e, w5) \<Rightarrow> (Some e, w5)
                          | (None, w5) \<Rightarrow>
                              (None, w5\<lparr>lastSyncedSignature :=
                                          (lastSyncedSignature w5)(localPath \<mapsto> localSignature),
                                        pendingChanges :=
                                          (pendingChanges w5)(normalizePath localPath := None)\<rparr>))))))"

text \<open>The \<open>run\<close> closure of \<open>createDownloadJob\<close>.\<close>

definition downloadRun :: "string \<Rightarrow> string \<Rightarrow> bool \<Rightarrow> world \<Rightarrow> error option \<times> world" where
  "downloadRun localPath remotePath aborted w =
     (case statRemote remotePath w of
        (None, w1) \<Rightarrow> (Some (Rejected (StatRemote remotePath)), w1)
      | (Some remoteStat, w1) \<Rightarrow>
          (let (localStat, w2) = statLocal localPath w1 in
           case (case localStat of None \<Rightarrow> None
                 | Some ls \<Rightarrow>
                     if isSameSignature (localSignatureOf ls) (remoteSignatureOf remoteStat)
                     then Some (localSignatureOf ls) else None) of
             Some localSignature \<Rightarrow>
               (None, w2\<lparr>lastSyncedSignature :=
                           (lastSyncedSignature w2)(localPath \<mapsto> localSignature)\<rparr>)
           | None \<Rightarrow>
             (case mkdirLocal (dirname localPath) w2 of
                (Some e, w3) \<Rightarrow> (Some e, w3)
              | (None, w3) \<Rightarrow>
                  (let w4 = markPathIgnored (tempLocalPath localPath) 30000 w3;
                       w5 = markPathIgnored localPath 30000 w4
                   in
                   case fastGet remotePath (tempLocalPath localPath) aborted w5 of
                     (Some e, w6) \<Rightarrow> (Some e, w6)
                   | (None, w6) \<Rightarrow>
                       (case renameLocal (tempLocalPath localPath) localPath w6 of
                          (Some e, w7) \<Rightarrow> (Some e, w7)
                        | (None, w7) \<Rightarrow>
                            (None, w7\<lparr>lastSyncedSignature :=
                                        (lastSyncedSignature w7)(localPath \<mapsto>
                                           remoteSignatureOf remoteStat)\<rparr>))))))"

section \<open>Path filtering\<close>

subsection \<open>From a pattern to the source of a regular expression\<close>

text \<open>
  \<^verbatim>\<open>pattern.replace(/[.+^${}()|[\]\\]/g, '\\$&')\<close>: a backslash before each
  of the characters \<open>. + ^ $ { } ( ) | [ ] \<close> and the backslash itself.
\<close>

definition escapeSpecial :: "string \<Rightarrow> string" where
  "escapeSpecial s =
     concat (map (\<lambda>c. if c \<in> set (CHR 0x5C # ''.+^${}()|[]'') then [CHR 0x5C, c] else [c]) s)"

text \<open>\<^verbatim>\<open>.replace(/\*\*/g, '.*')\<close>: leftmost pairs of stars, not overlapping.\<close>

fun replaceStarStar :: "string \<Rightarrow> string" where
  "replaceStarStar (a # b # cs) =
     (if a = CHR ''*'' \<and> b = CHR ''*'' then ''.*'' @ replaceStarStar cs
      else a # replaceStarStar (b # cs))"
| "replaceStarStar cs = cs"

text \<open>
  \<^verbatim>\<open>.replace(/\*/g, '[^/]*')\<close>: every star that is left, the one of a
  \<open>.*\<close> written by the step before included.
\<close>

definition replaceStar :: "string \<Rightarrow> string" where
  "replaceStar s = concat (map (\<lambda>c. if c = CHR ''*'' then ''[^/]*'' else [c]) s)"

definition escaped :: "string \<Rightarrow> string" where
  "escaped pattern = replaceStar (replaceStarStar (escapeSpecial pattern))"

subsection \<open>The regular expressions these sources denote\<close>

text \<open>
  After the three replacements the source holds escaped characters, plain
  characters, dots, the class \<open>[^/]*\<close> and question marks; nothing else is
  active in a JavaScript regular expression. An atom is one of the first
  three; a question mark after an atom makes it optional (a second one makes
  it lazy), one after \<open>[^/]*\<close> makes the star lazy, and a question mark
  with nothing to repeat is a SyntaxError of \<open>new RegExp\<close>.
\<close>

datatype atom = Lit char | AnyChar | NonSlash

datatype quant = One | Opt | Star

datatype tok = TAtom atom | TStar | TQ

fun tokenize :: "string \<Rightarrow> tok list option" where
  "tokenize [] = Some []"
| "tokenize (c # cs) =
     (if c = CHR 0x5C then
        (case cs of
           [] \<Rightarrow> None
         | d # ds \<Rightarrow> map_option (\<lambda>ts. TAtom (Lit d) # ts) (tokenize ds))
      else if c = CHR ''['' then
        (case cs of
           c1 # c2 # c3 # c4 # ds \<Rightarrow>
             (if [c1, c2, c3, c4] = ''^/]*''
              then map_option (\<lambda>ts. TStar # ts) (tokenize ds) else None)
         | _ \<Rightarrow> None)
      else if c = CHR ''.'' then map_option (\<lambda>ts. TAtom AnyChar # ts) (tokenize cs)
      else if c = CHR ''?'' then map_option (\<lambda>ts. TQ # ts) (tokenize cs)
      else map_option (\<lambda>ts. TAtom (Lit c) # ts) (tokenize cs))"

fun quantify :: "tok list \<Rightarrow> (atom \<times> quant) list option" where
  "quantify [] = Some []"
| "quantify (TQ # ts) = None"
| "quantify (TAtom a # TQ # TQ # ts) = map_option (\<lambda>is. (a, Opt) # is) (quantify ts)"
| "quantify (TAtom a # TQ # ts) = map_option (\<lambda>is. (a, Opt) # is) (quantify ts)"
| "quantify (TAtom a # ts) = map_option (\<lambda>is. (a, One) # is) (quantify ts)"
| "quantify (TStar # TQ # ts) = map_option (\<lambda>is. (NonSlash, Star) # is) (quantify ts)"
| "quantify (TStar # ts) = map_option (\<lambda>is. (NonSlash, Star) # is) (quantify ts)"

text \<open>
  A dot matches every character but a line terminator; \<open>[^/]\<close> every
  character but the slash.
\<close>

fun atomMatches :: "atom \<Rightarrow> char \<Rightarrow> bool" where
  "atomMatches (Lit d) c = (c = d)"
| "atomMatches AnyChar c = (c \<noteq> CHR 0x0A \<and> c \<noteq> CHR 0x0D)"
| "atomMatches NonSlash c = (c \<noteq> CHR ''/'')"

text \<open>\<^verbatim>\<open>new RegExp(`^${escaped}$`).test(s)\<close>: the items match all of \<open>s\<close>.\<close>

fun matchItems :: "(atom \<times> quant) list \<Rightarrow> string \<Rightarrow> bool" where
  "matchItems [] s = (s = [])"
| "matchItems ((a, One) # is) [] = False"
| "matchItems ((a, One) # is) (c # cs) = (atomMatches a c \<and> matchItems is cs)"
| "matchItems ((a, Opt) # is) [] = matchItems is []"
| "matchItems ((a, Opt) # is) (c # cs) =
     (matchItems is (c # cs) \<or> (atomMatches a c \<and> matchItems is cs))"
| "matchItems ((a, Star) # is) [] = matchItems is []"
| "matchItems ((a, Star) # is) (c # cs) =
     (matchItems is (c # cs) \<or> (atomMatches a c \<and> matchItems ((a, Star) # is) cs))"

text \<open>
  \<open>matchesPattern\<close>; \<open>None\<close> is the SyntaxError.
\<close>

definition matchesPattern :: "string \<Rightarrow> string \<Rightarrow> bool option" where
  "matchesPattern filePath pattern =
     (case tokenize (escaped pattern) of
        None \<Rightarrow> None
      | Some ts \<Rightarrow> map_option (\<lambda>is. matchItems is filePath) (quantify ts))"

text \<open>\<^verbatim>\<open>s.includes(p)\<close>\<close>

fun includesStr :: "string \<Rightarrow> string \<Rightarrow> bool" where
  "includesStr [] p = (p = [])"
| "includesStr (c # cs) p = (take (length p) (c # cs) = p \<or> includesStr cs p)"

text \<open>
  \<^verbatim>\<open>exclusions.some((pattern) => this.matchesPattern(relativePath, pattern)
      || relativePath.includes(pattern))\<close>
\<close>

fun isExcluded :: "string \<Rightarrow> string list \<Rightarrow> bool option" where
  "isExcluded relativePath [] = Some False"
| "isExcluded relativePath (pattern # rest) =
     (case matchesPattern relativePath pattern of
        None \<Rightarrow> None
      | Some True \<Rightarrow> Some True
      | Some False \<Rightarrow>
          (if includesStr relativePath pattern then Some True
           else isExcluded relativePath rest))"

section \<open>The transfer queue\<close>

datatype TransferJobType = UPLOAD | DOWNLOAD | DELETE | MKDIR | RENAME

datatype TransferPriority = high | normal | low

text \<open>
  A \<open>TransferJob\<close> object. \<open>signalAborted\<close> is
  \<^verbatim>\<open>abortController.signal.aborted\<close>. The \<open>run\<close> closure is not a field:
  whether a started action resolves or rejects is an input of the queue
  (\<open>RunResolved\<close>, \<open>RunRejected\<close> below). \<open>retries\<close> starts at 0 and is only
  incremented, so it is a natural number. \<open>maxRetries\<close> is the number of the
  settings, which the configuration clamps to the interval from 0 to 10 and
  does not round; a JSON number is finite, hence a rational.
\<close>

record TransferJob =
  jobId :: string
  key :: string
  jobType :: TransferJobType
  jobLocalPath :: "string option"
  jobRemotePath :: "string option"
  jobTempRemotePath :: "string option"
  jobTempLocalPath :: "string option"
  priority :: TransferPriority
  retries :: nat
  maxRetries :: rat
  signalAborted :: bool

fun priorityRank :: "TransferPriority \<Rightarrow> nat" where
  "priorityRank high = 0"
| "priorityRank normal = 1"
| "priorityRank low = 2"

text \<open>
  The events the queue emits. Each is logged with
  \<^verbatim>\<open>snapshot().total\<close> at the moment of the emit, which is what a listener
  that calls \<open>snapshot\<close> reads.
\<close>

datatype event =
    QueueChanged
  | JobStarted nat
  | JobCompleted nat
  | JobRetry nat
  | JobFailed nat
  | JobCancelled nat

text \<open>
  Job objects are shared between \<open>pending\<close>, \<open>inflight\<close>, \<open>dedupe\<close> and the
  closures of \<open>execute\<close>, and are mutated in place (\<open>retries\<close>, the abort
  signal). So the queue holds references, and \<open>heap\<close> maps a reference to
  the object; \<open>nextRef\<close> is the next unused reference. The two maps are
  association lists with the order and replacement of a JavaScript \<open>Map\<close>.
  \<open>maxConcurrency\<close> is a number that nothing rounds: the configuration
  clamps the setting to the interval from 1 to 10 and \<open>updateConcurrency\<close>
  takes \<^verbatim>\<open>Math.max(1, n)\<close>; the numbers of the settings are finite, hence
  rationals. \<open>inflight.size\<close> is compared with it as a number.
  Two parts of the state live in the runtime rather than in a field:
  \<open>running\<close>, the jobs whose \<open>run\<close> promise has not settled, and
  \<open>timers\<close>, the retry timers set and not yet fired, each with its delay.
\<close>

record TransferQueue =
  heap :: "nat \<Rightarrow> TransferJob"
  nextRef :: nat
  pending :: "nat list"
  inflight :: "(string \<times> nat) list"
  dedupe :: "(string \<times> nat) list"
  online :: bool
  maxConcurrency :: rat
  running :: "nat list"
  timers :: "(nat \<times> int) list"
  emitted :: "(event \<times> nat) list"

definition blankJob :: TransferJob where
  "blankJob = \<lparr>jobId = [], key = [], jobType = UPLOAD, jobLocalPath = None,
     jobRemotePath = None, jobTempRemotePath = None, jobTempLocalPath = None,
     priority = normal, retries = 0, maxRetries = 0, signalAborted = False\<rparr>"

text \<open>\<^verbatim>\<open>new TransferQueue(maxConcurrency)\<close>\<close>

definition newQueue :: "rat \<Rightarrow> TransferQueue" where
  "newQueue c = \<lparr>heap = (\<lambda>_. blankJob), nextRef = 0, pending = [], inflight = [],
     dedupe = [], online = True, maxConcurrency = c, running = [], timers = [],
     emitted = []\<rparr>"

definition snapshotTotal :: "TransferQueue \<Rightarrow> nat" where
  "snapshotTotal q = length (pending q) + length (inflight q)"

definition emit :: "event \<Rightarrow> TransferQueue \<Rightarrow> TransferQueue" where
  "emit ev q = q\<lparr>emitted := emitted q @ [(ev, snapshotTotal q)]\<rparr>"

text \<open>\<^verbatim>\<open>job.abortController.abort()\<close>\<close>

definition abort :: "nat \<Rightarrow> TransferQueue \<Rightarrow> TransferQueue" where
  "abort r q = q\<lparr>heap := (heap q)(r := (heap q r)\<lparr>signalAborted := True\<rparr>)\<rparr>"

text \<open>\<^verbatim>\<open>this.pending.filter((j) => j.id !== existing.id)\<close>\<close>

definition dropFromPending :: "nat \<Rightarrow> TransferQueue \<Rightarrow> TransferQueue" where
  "dropFromPending e q =
     q\<lparr>pending := filter (\<lambda>j. jobId (heap q j) \<noteq> jobId (heap q e)) (pending q)\<rparr>"

text \<open>
  \<^verbatim>\<open>this.pending.sort((a, b) => priorityRank[a.priority] - priorityRank[b.priority])\<close>;
  the sort of an array is stable.
\<close>

definition sortPending :: "TransferQueue \<Rightarrow> TransferQueue" where
  "sortPending q =
     q\<lparr>pending := sort_key (\<lambda>j. priorityRank (priority (heap q j))) (pending q)\<rparr>"

text \<open>
  The loop of \<open>schedule\<close>: while there is room and work, shift the first
  pending job; drop it if its signal is aborted, else mark it in flight, emit
  \<open>jobStarted\<close> and start its action.
\<close>

function scheduleLoop :: "TransferQueue \<Rightarrow> TransferQueue" where
  "scheduleLoop q =
     (if of_nat (length (inflight q)) < maxConcurrency q \<and> pending q \<noteq> [] then
        (let r = hd (pending q);
             q1 = q\<lparr>pending := tl (pending q)\<rparr>
         in
         if signalAborted (heap q1 r)
         then scheduleLoop (q1\<lparr>dedupe := AList.delete (key (heap q1 r)) (dedupe q1)\<rparr>)
         else
           (let q2 = q1\<lparr>inflight := AList.update (jobId (heap q1 r)) r (inflight q1)\<rparr>;
                q3 = emit (JobStarted r) q2
            in scheduleLoop (q3\<lparr>running := running q3 @ [r]\<rparr>)))
      else q)"
  by pat_completeness auto
termination
  by (relation "measure (\<lambda>q. length (pending q))") (auto simp: emit_def)

definition schedule :: "TransferQueue \<Rightarrow> TransferQueue" where
  "schedule q = (if \<not> online q then q else emit QueueChanged (scheduleLoop q))"

definition updateConcurrency :: "rat \<Rightarrow> TransferQueue \<Rightarrow> TransferQueue" where
  "updateConcurrency n q = schedule (q\<lparr>maxConcurrency := max 1 n\<rparr>)"

definition setOnline :: "bool \<Rightarrow> TransferQueue \<Rightarrow> TransferQueue" where
  "setOnline v q = (let q1 = q\<lparr>online := v\<rparr> in if online q1 then schedule q1 else q1)"

text \<open>
  \<open>enqueue\<close>. The job is a new object, so it gets the next reference. Each
  job object is enqueued once: by the engine as soon as it is built, or when
  the offline buffer is flushed.
\<close>

definition enqueue :: "TransferJob \<Rightarrow> TransferQueue \<Rightarrow> TransferQueue" where
  "enqueue job q0 =
     (let r = nextRef q0;
          q = q0\<lparr>heap := (heap q0)(r := job), nextRef := Suc r\<rparr>;
          q1 = (case map_of (dedupe q) (key job) of
                  None \<Rightarrow> q
                | Some existing \<Rightarrow>
                    if map_of (inflight q) (jobId (heap q existing)) = None
                    then dropFromPending existing (abort existing q)
                    else q);
          q2 = q1\<lparr>pending := pending q1 @ [r]\<rparr>;
          q3 = sortPending q2;
          q4 = q3\<lparr>dedupe := AList.update (key job) r (dedupe q3)\<rparr>;
          q5 = emit QueueChanged q4
      in schedule q5)"

definition cancelByKey :: "string \<Rightarrow> TransferQueue \<Rightarrow> TransferQueue" where
  "cancelByKey k q =
     (case map_of (dedupe q) k of
        None \<Rightarrow> q
      | Some existing \<Rightarrow>
          (let q1 = dropFromPending existing (abort existing q);
               q2 = q1\<lparr>inflight := AList.delete (jobId (heap q1 existing)) (inflight q1)\<rparr>;
               q3 = q2\<lparr>dedupe := AList.delete k (dedupe q2)\<rparr>
           in emit QueueChanged q3))"

text \<open>The \<open>finally\<close> block of \<open>execute\<close>.\<close>

definition executeFinally :: "nat \<Rightarrow> TransferQueue \<Rightarrow> TransferQueue" where
  "executeFinally r q =
     schedule (emit QueueChanged
       (q\<lparr>inflight := AList.delete (jobId (heap q r)) (inflight q)\<rparr>))"

text \<open>\<open>execute\<close> from the point where the action of job \<open>r\<close> has resolved.\<close>

definition executeResolved :: "nat \<Rightarrow> TransferQueue \<Rightarrow> TransferQueue" where
  "executeResolved r q =
     (let q1 = emit (JobCompleted r) q;
          q2 = q1\<lparr>dedupe := AList.delete (key (heap q1 r)) (dedupe q1)\<rparr>
      in executeFinally r q2)"

text \<open>
  \<open>execute\<close> from the point where the action of job \<open>r\<close> has rejected. In
  the retry branch the timer is set and the function returns through
  \<open>finally\<close>.
\<close>

definition executeRejected :: "nat \<Rightarrow> TransferQueue \<Rightarrow> TransferQueue" where
  "executeRejected r q =
     (if signalAborted (heap q r) then
        (let q1 = emit (JobCancelled r) q;
             q2 = q1\<lparr>dedupe := AList.delete (key (heap q1 r)) (dedupe q1)\<rparr>
         in executeFinally r q2)
      else if of_nat (retries (heap q r)) < maxRetries (heap q r) then
        (let q1 = q\<lparr>heap := (heap q)(r := (heap q r)\<lparr>retries := retries (heap q r) + 1\<rparr>)\<rparr>;
             delayMs = min 30000 (2 ^ retries (heap q1 r) * 500);
             q2 = q1\<lparr>timers := timers q1 @ [(r, delayMs)]\<rparr>;
             q3 = emit (JobRetry r) q2
         in executeFinally r q3)
      else
        (let q1 = emit (JobFailed r) q;
             q2 = q1\<lparr>dedupe := AList.delete (key (heap q1 r)) (dedupe q1)\<rparr>
         in executeFinally r q2))"

text \<open>The callback of the retry timer of job \<open>r\<close>.\<close>

definition retryTimerFired :: "nat \<Rightarrow> TransferQueue \<Rightarrow> TransferQueue" where
  "retryTimerFired r q =
     (let q1 = q\<lparr>inflight := AList.delete (jobId (heap q r)) (inflight q)\<rparr>;
          q2 = q1\<lparr>pending := pending q1 @ [r]\<rparr>;
          q3 = sortPending q2
      in schedule q3)"

text \<open>
  What can happen to a queue: a call of its interface, the action of a
  running job settling, a retry timer firing. A promise that is not pending
  cannot settle and a timer that is not set cannot fire: such an input leaves
  the queue as it is.
\<close>

datatype action =
    Enqueue TransferJob
  | SetOnline bool
  | UpdateConcurrency rat
  | CancelByKey string
  | RunResolved nat
  | RunRejected nat
  | TimerFired nat

fun step :: "action \<Rightarrow> TransferQueue \<Rightarrow> TransferQueue" where
  "step (Enqueue job) q = enqueue job q"
| "step (SetOnline v) q = setOnline v q"
| "step (UpdateConcurrency n) q = updateConcurrency n q"
| "step (CancelByKey k) q = cancelByKey k q"
| "step (RunResolved r) q =
     (if r \<in> set (running q)
      then executeResolved r (q\<lparr>running := remove1 r (running q)\<rparr>) else q)"
| "step (RunRejected r) q =
     (if r \<in> set (running q)
      then executeRejected r (q\<lparr>running := remove1 r (running q)\<rparr>) else q)"
| "step (TimerFired r) q =
     (if map_of (timers q) r \<noteq> None
      then retryTimerFired r (q\<lparr>timers := AList.delete r (timers q)\<rparr>) else q)"

fun steps :: "action list \<Rightarrow> TransferQueue \<Rightarrow> TransferQueue" where
  "steps [] q = q"
| "steps (a # as) q = steps as (step a q)"

text \<open>The jobs started so far, in the order of their \<open>jobStarted\<close> events.\<close>

fun startedRefs :: "(event \<times> nat) list \<Rightarrow> nat list" where
  "startedRefs [] = []"
| "startedRefs ((JobStarted r, _) # es) = r # startedRefs es"
| "startedRefs (_ # es) = startedRefs es"

text \<open>The jobs completed so far, in the order of their \<open>jobCompleted\<close> events.\<close>

fun completedRefs :: "(event \<times> nat) list \<Rightarrow> nat list" where
  "completedRefs [] = []"
| "completedRefs ((JobCompleted r, _) # es) = r # completedRefs es"
| "completedRefs (_ # es) = completedRefs es"


subsection \<open>Predicates on queues and runs\<close>

text \<open>
  No \<open>updateConcurrency\<close> of the run sets the bound, rounded up, below the
  number of jobs in flight at that moment.
\<close>

fun respectsRunning :: "action list \<Rightarrow> TransferQueue \<Rightarrow> bool" where
  "respectsRunning [] q = True"
| "respectsRunning (a # as) q =
     ((case a of UpdateConcurrency n \<Rightarrow> int (length (inflight q)) \<le> \<lceil>max 1 n\<rceil> | _ \<Rightarrow> True)
      \<and> respectsRunning as (step a q))"

text \<open>
  The identifier of every job enqueued in the run is new to the queue, as the
  engine's are (each holds \<^verbatim>\<open>Date.now()\<close> and a random number), and no
  \<open>cancelByKey\<close> of the run hits a job whose action is running.
\<close>

fun freshRun :: "action list \<Rightarrow> TransferQueue \<Rightarrow> bool" where
  "freshRun [] q = True"
| "freshRun (a # as) q =
     ((case a of
         Enqueue job \<Rightarrow> jobId job \<notin> set (map (\<lambda>r. jobId (heap q r)) [0..<nextRef q])
       | CancelByKey k \<Rightarrow>
           (case map_of (dedupe q) k of None \<Rightarrow> True | Some e \<Rightarrow> e \<notin> set (running q))
       | _ \<Rightarrow> True)
      \<and> freshRun as (step a q))"

text \<open>
  The bookkeeping of a queue whose jobs have identifiers of their own: every
  reference it holds has been handed out; a job is pending, running or
  waiting for its retry timer, never two of these; and every running job has
  its entry in \<open>inflight\<close>.
\<close>

definition tracked :: "TransferQueue \<Rightarrow> bool" where
  "tracked q \<longleftrightarrow>
     (\<forall>r\<in>set (pending q). r < nextRef q \<and> r \<notin> set (running q))
     \<and> (\<forall>r\<in>set (running q). r < nextRef q \<and> jobId (heap q r) \<in> fst ` set (inflight q))
     \<and> (\<forall>r\<in>fst ` set (timers q).
           r < nextRef q \<and> r \<notin> set (running q) \<and> r \<notin> set (pending q))
     \<and> (\<forall>r\<in>snd ` set (dedupe q). r < nextRef q)
     \<and> inj_on (\<lambda>r. jobId (heap q r)) {..<nextRef q}
     \<and> distinct (pending q) \<and> distinct (running q)"

text \<open>The jobs the queue holds: pending or in flight.\<close>

definition outstanding :: "TransferQueue \<Rightarrow> nat list" where
  "outstanding q = pending q @ map snd (inflight q)"

text \<open>
  Every pending job is a distinct allocated object with its own identifier,
  is the entry of the dedup map for its key, and is not in flight.
\<close>

definition pendingKeyed :: "TransferQueue \<Rightarrow> bool" where
  "pendingKeyed q \<longleftrightarrow>
     distinct (map (\<lambda>r. jobId (heap q r)) (pending q))
     \<and> (\<forall>r\<in>set (pending q).
           r < nextRef q
           \<and> map_of (dedupe q) (key (heap q r)) = Some r
           \<and> map_of (inflight q) (jobId (heap q r)) = None)"





section \<open>The engine\<close>

subsection \<open>Building the job of a change notification\<close>

datatype SyncDirection = push | pull

record Settings =
  enabled :: bool
  settingsRemotePath :: string
  exclusions :: "string list"
  settingsMaxRetries :: rat

record WorkspaceTarget =
  workspaceRoot :: string
  settings :: Settings

text \<open>
  \<open>isPathInsideRoot\<close>, on paths already normalised (\<open>fsPath\<close> is the
  identity of the model, the separator is the slash).
\<close>

definition rootPrefix :: "string \<Rightarrow> string" where
  "rootPrefix normalizedRoot =
     (if normalizedRoot \<noteq> [] \<and> last normalizedRoot = CHR ''/'' then normalizedRoot
      else normalizedRoot @ ''/'')"

definition isPathInsideRoot :: "string \<Rightarrow> string \<Rightarrow> bool" where
  "isPathInsideRoot localPath rootPath \<longleftrightarrow>
     localPath = rootPath
     \<or> take (length (rootPrefix rootPath)) localPath = rootPrefix rootPath"

text \<open>
  \<^verbatim>\<open>path.relative(root, localPath).replace(/\\/g, '/')\<close> for a normalised
  path inside the root, the only place where \<open>syncFile\<close> uses it.
\<close>

definition relativeTo :: "string \<Rightarrow> string \<Rightarrow> string" where
  "relativeTo rootPath localPath =
     map (\<lambda>c. if c = CHR 0x5C then CHR ''/'' else c)
       (if localPath = rootPath then []
        else drop (length (rootPrefix rootPath)) localPath)"

text \<open>
  The three job builders. \<open>stamp\<close> stands for the
  \<^verbatim>\<open>${Date.now()}:${Math.random().toString(16).slice(2)}\<close> of the identifier.
\<close>

definition createUploadJob :: "string \<Rightarrow> string \<Rightarrow> rat \<Rightarrow> string \<Rightarrow> TransferJob" where
  "createUploadJob localPath remotePath retryLimit stamp =
     \<lparr>jobId = ''upload:'' @ remotePath @ '':'' @ stamp,
      key = ''UPLOAD:'' @ remotePath,
      jobType = UPLOAD,
      jobLocalPath = Some localPath,
      jobRemotePath = Some remotePath,
      jobTempRemotePath = Some (tempRemotePath remotePath),
      jobTempLocalPath = None,
      priority = high,
      retries = 0,
      maxRetries = retryLimit,
      signalAborted = False\<rparr>"

definition createDownloadJob :: "string \<Rightarrow> string \<Rightarrow> rat \<Rightarrow> string \<Rightarrow> TransferJob" where
  "createDownloadJob localPath remotePath retryLimit stamp =
     \<lparr>jobId = ''download:'' @ remotePath @ '':'' @ stamp,
      key = ''DOWNLOAD:'' @ remotePath,
      jobType = DOWNLOAD,
      jobLocalPath = Some localPath,
      jobRemotePath = Some remotePath,
      jobTempRemotePath = None,
      jobTempLocalPath = Some (tempLocalPath localPath),
      priority = normal,
      retries = 0,
      maxRetries = retryLimit,
      signalAborted = False\<rparr>"

definition createDeleteJob :: "string \<Rightarrow> string \<Rightarrow> rat \<Rightarrow> string \<Rightarrow> TransferJob" where
  "createDeleteJob localPath remotePath retryLimit stamp =
     \<lparr>jobId = ''delete:'' @ remotePath @ '':'' @ stamp,
      key = ''DELETE:'' @ remotePath,
      jobType = DELETE,
      jobLocalPath = Some localPath,
      jobRemotePath = Some remotePath,
      jobTempRemotePath = None,
      jobTempLocalPath = None,
      priority = high,
      retries = 0,
      maxRetries = retryLimit,
      signalAborted = False\<rparr>"

text \<open>
  \<open>syncFile\<close> up to the job it builds: \<open>Ignored\<close> when it returns early,
  \<open>Thrown\<close> when its promise rejects (a SyntaxError of a pattern, or
  \<^verbatim>\<open>await this.connect()\<close> rejecting, which is the input \<open>connects\<close>), else
  the one job. What is done with the job depends on the connection state:
  see \<open>submit\<close> below.
\<close>

datatype built = Ignored | Thrown | Job TransferJob

definition syncFileJob ::
  "WorkspaceTarget option \<Rightarrow> bool \<Rightarrow> string \<Rightarrow> string \<Rightarrow> SyncDirection \<Rightarrow> built" where
  "syncFileJob target connects stamp localPath direction =
     (case target of
        None \<Rightarrow> Ignored
      | Some t \<Rightarrow>
          if \<not> enabled (settings t) then Ignored
          else if \<not> isPathInsideRoot localPath (workspaceRoot t) then Ignored
          else
            (let relativePath = relativeTo (workspaceRoot t) localPath in
             if relativePath = [] \<or> take 2 relativePath = ''..'' then Ignored
             else
               (case isExcluded relativePath (exclusions (settings t)) of
                  None \<Rightarrow> Thrown
                | Some True \<Rightarrow> Ignored
                | Some False \<Rightarrow>
                    (let remotePath = joinPosix (settingsRemotePath (settings t)) relativePath in
                     if \<not> connects then Thrown
                     else
                       (case direction of
                          push \<Rightarrow> Job (createUploadJob localPath remotePath
                                     (settingsMaxRetries (settings t)) stamp)
                        | pull \<Rightarrow> Job (createDownloadJob localPath remotePath
                                     (settingsMaxRetries (settings t)) stamp))))))"

subsection \<open>Connection state, offline buffer and queue\<close>

datatype ConnectionState = DISCONNECTED | CONNECTING | CONNECTED | SYNCING | ERROR

record SyncEngine =
  statusState :: ConnectionState
  offlineJobs :: "TransferJob list"
  queue :: TransferQueue


text \<open>
  The listeners of \<open>bindQueueEvents\<close>, as far as they set the state. The
  number logged with an event is the total a listener sees.
\<close>

fun listener :: "ConnectionState \<Rightarrow> event \<times> nat \<Rightarrow> ConnectionState" where
  "listener s (QueueChanged, n) = (if n = 0 \<and> s = SYNCING then CONNECTED else s)"
| "listener s (JobStarted r, n) = SYNCING"
| "listener s (JobCompleted r, n) = (if n = 0 then CONNECTED else s)"
| "listener s (JobRetry r, n) = s"
| "listener s (JobFailed r, n) = ERROR"
| "listener s (JobCancelled r, n) = s"

text \<open>
  A call into the queue from the engine: the listeners run on the events the
  call emits, in order. They do not call back into the queue.
\<close>

definition withQueue :: "(TransferQueue \<Rightarrow> TransferQueue) \<Rightarrow> SyncEngine \<Rightarrow> SyncEngine" where
  "withQueue f e =
     (let q' = f (queue e)
      in e\<lparr>queue := q',
           statusState := foldl listener (statusState e)
                            (drop (length (emitted (queue e))) (emitted q'))\<rparr>)"



text \<open>The flush: \<^verbatim>\<open>for (const job of queued) { this.queue.enqueue(job); }\<close>\<close>

fun flush :: "TransferJob list \<Rightarrow> SyncEngine \<Rightarrow> SyncEngine" where
  "flush [] e = e"
| "flush (job # jobs) e = flush jobs (withQueue (enqueue job) e)"






text \<open>\<open>enqueue\<close> on each job of a list, in order, as the flush does to the queue.\<close>

fun enqueueAll :: "TransferJob list \<Rightarrow> TransferQueue \<Rightarrow> TransferQueue" where
  "enqueueAll [] q = q"
| "enqueueAll (job # jobs) q = enqueueAll jobs (enqueue job q)"

section \<open>Examples\<close>

subsection \<open>Example worlds\<close>

text \<open>
  One local file and one remote file of the same size whose timestamps
  differ by two seconds; every call succeeds; no baseline is recorded.
\<close>

definition exampleWorld :: world where
  "exampleWorld =
     \<lparr>targetOk = True, now = 5000, outcomeOf = (\<lambda>_. Done),
      lfiles = [''/ws/a.txt'' \<mapsto> \<lparr>l_size = 10, l_mtimeMs = 7500, l_data = ''local''\<rparr>],
      ldirs = [],
      rfiles = [''/r/a.txt'' \<mapsto> \<lparr>r_size = 10, r_mtime = 9, r_data = ''remote''\<rparr>],
      rdirs = [],
      lastSyncedSignature = Map.empty,
      pendingChanges = [''/ws/a.txt'' \<mapsto> Upsert],
      ignoreWatcherUntil = Map.empty,
      conflicts = [],
      calls = []\<rparr>"

text \<open>The local file has grown and the remote file is older: a plain transfer.\<close>

definition transferWorld :: world where
  "transferWorld =
     \<lparr>targetOk = True, now = 5000, outcomeOf = (\<lambda>_. Done),
      lfiles = [''/ws/a.txt'' \<mapsto> \<lparr>l_size = 11, l_mtimeMs = 7500, l_data = ''local''\<rparr>],
      ldirs = [],
      rfiles = [''/r/a.txt'' \<mapsto> \<lparr>r_size = 10, r_mtime = 1, r_data = ''remote''\<rparr>],
      rdirs = [],
      lastSyncedSignature = [''/ws/a.txt'' \<mapsto> \<lparr>size_sig = 10, mtimeSec = 1\<rparr>],
      pendingChanges = [''/ws/a.txt'' \<mapsto> Upsert],
      ignoreWatcherUntil = Map.empty,
      conflicts = [],
      calls = []\<rparr>"

text \<open>
  Baseline (10, 1); the local file is now (11, 7) and the remote file (12, 9).
  One older conflict, of another file, is on record.
\<close>

definition conflictWorld :: world where
  "conflictWorld =
     \<lparr>targetOk = True, now = 5000, outcomeOf = (\<lambda>_. Done),
      lfiles = [''/ws/a.txt'' \<mapsto> \<lparr>l_size = 11, l_mtimeMs = 7500, l_data = ''local''\<rparr>],
      ldirs = [],
      rfiles = [''/r/a.txt'' \<mapsto> \<lparr>r_size = 12, r_mtime = 9, r_data = ''remote''\<rparr>],
      rdirs = [],
      lastSyncedSignature = [''/ws/a.txt'' \<mapsto> \<lparr>size_sig = 10, mtimeSec = 1\<rparr>],
      pendingChanges = [''/ws/a.txt'' \<mapsto> Upsert],
      ignoreWatcherUntil = Map.empty,
      conflicts = [(''/ws/b.txt'', ''/ws/b.txt.conflict.LOCAL.4000'',
                    ''/ws/b.txt.conflict.REMOTE.4000'')],
      calls = []\<rparr>"

subsection \<open>Example jobs and runs of the queue\<close>

text \<open>A job with identifier \<open>i\<close>, dedup key \<open>k\<close> and priority \<open>p\<close>, as the engine builds it.\<close>

definition exampleJob :: "string \<Rightarrow> string \<Rightarrow> TransferPriority \<Rightarrow> TransferJob" where
  "exampleJob i k p = blankJob\<lparr>jobId := i, key := k, priority := p, maxRetries := 3\<rparr>"

text \<open>
  A queue of bound 1. \<open>Z\<close> (key \<open>K\<close>) starts at once; \<open>H\<close> (another key) and
  \<open>A\<close> (key \<open>K\<close>) wait behind it. \<open>Z\<close> resolves, \<open>H\<close> starts. \<open>B\<close> (key
  \<open>K\<close>) is enqueued while \<open>A\<close> is still pending. Then \<open>H\<close>, \<open>A\<close> and \<open>B\<close>
  resolve in turn. The references are 0 for \<open>Z\<close>, 1 for \<open>H\<close>, 2 for \<open>A\<close> and
  3 for \<open>B\<close>.
\<close>

definition beforeB :: "action list" where
  "beforeB = [Enqueue (exampleJob ''z'' ''K'' high), Enqueue (exampleJob ''h'' ''H'' high),
     Enqueue (exampleJob ''a'' ''K'' high), RunResolved 0]"

definition staleEntryRun :: "action list" where
  "staleEntryRun = beforeB @ [Enqueue (exampleJob ''b'' ''K'' high),
     RunResolved 1, RunResolved 2, RunResolved 3]"

text \<open>Three jobs start under bound 3, then the bound is set to 1.\<close>

definition loweredRun :: "action list" where
  "loweredRun = [Enqueue (exampleJob ''a'' ''A'' high), Enqueue (exampleJob ''b'' ''B'' high),
     Enqueue (exampleJob ''c'' ''C'' high), UpdateConcurrency 1]"

text \<open>
  The engine makes its queue with bound 3 and sets the bound of the settings,
  here 2.5, before three jobs are enqueued.
\<close>

definition fractionalRun :: "action list" where
  "fractionalRun = [UpdateConcurrency (5 / 2), Enqueue (exampleJob ''a'' ''A'' high),
     Enqueue (exampleJob ''b'' ''B'' high), Enqueue (exampleJob ''c'' ''C'' high)]"

text \<open>
  Bound 1. A job starts and is cancelled by its key while its action runs; the
  next job starts beside it.
\<close>

definition cancelledRun :: "action list" where
  "cancelledRun = [Enqueue (exampleJob ''a'' ''A'' high), CancelByKey ''A'',
     Enqueue (exampleJob ''b'' ''B'' high)]"

text \<open>Bound 2. The first two jobs have the same identifier.\<close>

definition sameIdRun :: "action list" where
  "sameIdRun = [Enqueue (exampleJob ''a'' ''A'' high), Enqueue (exampleJob ''a'' ''B'' high),
     Enqueue (exampleJob ''c'' ''C'' high)]"

text \<open>Three jobs under bound 2; the bound is raised to 3, one job resolves, the bound goes back to 2.\<close>

definition raisedRun :: "action list" where
  "raisedRun = [Enqueue (exampleJob ''a'' ''A'' high), Enqueue (exampleJob ''b'' ''B'' high),
     Enqueue (exampleJob ''c'' ''C'' high), UpdateConcurrency 3, RunResolved 0,
     UpdateConcurrency 2]"

text \<open>An offline queue holding one pending job of key \<open>K\<close>.\<close>

definition onePending :: TransferQueue where
  "onePending = steps [SetOnline False, Enqueue (exampleJob ''a'' ''K'' high)] (newQueue 1)"

subsection \<open>Example targets and engines\<close>

text \<open>The target of the filtering scenario.\<close>

definition exampleTarget :: WorkspaceTarget where
  "exampleTarget =
     \<lparr>workspaceRoot = ''/ws'',
      settings = \<lparr>enabled = True, settingsRemotePath = ''/home/bjorn/Bjorn'',
                  exclusions = [''node_modules'', ''*.log''], settingsMaxRetries = 3\<rparr>\<rparr>"




section \<open>Properties of the upload and download actions\<close>

subsection \<open>The directory chain\<close>

lemma mkdirAll_fields:
  "lfiles (snd (mkdirAll ds w)) = lfiles w \<and> rfiles (snd (mkdirAll ds w)) = rfiles w
   \<and> lastSyncedSignature (snd (mkdirAll ds w)) = lastSyncedSignature w
   \<and> pendingChanges (snd (mkdirAll ds w)) = pendingChanges w
   \<and> outcomeOf (snd (mkdirAll ds w)) = outcomeOf w
   \<and> conflicts (snd (mkdirAll ds w)) = conflicts w
   \<and> now (snd (mkdirAll ds w)) = now w
   \<and> ignoreWatcherUntil (snd (mkdirAll ds w)) = ignoreWatcherUntil w
   \<and> ldirs (snd (mkdirAll ds w)) = ldirs w
   \<and> targetOk (snd (mkdirAll ds w)) = targetOk w"
  by (induction ds arbitrary: w) (simp_all add: logCall_def Let_def split: outcome.splits)

lemma mkdirAll_ok:
  "\<forall>d\<in>set ds. outcomeOf w (MkdirRemote d) \<noteq> TimedOut \<Longrightarrow>
   fst (mkdirAll ds w) = None \<and> calls (snd (mkdirAll ds w)) = calls w @ map MkdirRemote ds"
  by (induction ds arbitrary: w) (simp_all add: logCall_def Let_def split: outcome.splits)

lemma filter_mkdirs [simp]: "filter isPutOrRename (map MkdirRemote ds) = []"
  by (induction ds) simp_all

text \<open>The world after the directory chain, when no \<open>mkdir\<close> times out.\<close>

lemma ensureRemoteDir_ok:
  assumes "\<forall>d\<in>set (remoteDirs remoteDir). outcomeOf w (MkdirRemote d) \<noteq> TimedOut"
  obtains w1 where "ensureRemoteDir remoteDir w = (None, w1)"
    and "calls w1 = calls w @ map MkdirRemote (remoteDirs remoteDir)"
    and "lfiles w1 = lfiles w" and "rfiles w1 = rfiles w"
    and "lastSyncedSignature w1 = lastSyncedSignature w"
    and "pendingChanges w1 = pendingChanges w"
    and "outcomeOf w1 = outcomeOf w" and "conflicts w1 = conflicts w"
    and "now w1 = now w" and "ignoreWatcherUntil w1 = ignoreWatcherUntil w"
proof -
  let ?r = "mkdirAll (remoteDirs remoteDir) w"
  have "ensureRemoteDir remoteDir w = (None, snd ?r)"
    using mkdirAll_ok [OF assms] by (simp add: ensureRemoteDir_def prod_eq_iff)
  then show ?thesis
    using that [of "snd ?r"] mkdirAll_ok [OF assms] mkdirAll_fields [of "remoteDirs remoteDir" w]
    by simp
qed

lemma remoteDirs_example: "remoteDirs (dirname ''/r/a.txt'') = [''/r'']"
  by (simp add: remoteDirs_def dirname_def joinPosix_def)

subsection \<open>The skip\<close>

lemma upload_skips:
  assumes ok: "targetOk w"
    and dirs: "\<forall>d\<in>set (remoteDirs (dirname remotePath)). outcomeOf w (MkdirRemote d) \<noteq> TimedOut"
    and ls: "outcomeOf w (StatLocal localPath) = Done" "lfiles w localPath = Some lf"
    and rs: "outcomeOf w (StatRemote remotePath) = Done" "rfiles w remotePath = Some rf"
    and same: "isSameSignature (localSignatureOf lf) (remoteSignatureOf rf)"
  shows "uploadRun localPath remotePath aborted w =
     (None, (snd (ensureRemoteDir (dirname remotePath) w))
        \<lparr>calls := calls w @ map MkdirRemote (remoteDirs (dirname remotePath))
                  @ [StatLocal localPath, StatRemote remotePath],
         lastSyncedSignature := (lastSyncedSignature w)(localPath \<mapsto> localSignatureOf lf)\<rparr>)"
proof -
  from dirs obtain w1 where w1: "ensureRemoteDir (dirname remotePath) w = (None, w1)"
    "calls w1 = calls w @ map MkdirRemote (remoteDirs (dirname remotePath))"
    "lfiles w1 = lfiles w" "rfiles w1 = rfiles w" "outcomeOf w1 = outcomeOf w"
    "lastSyncedSignature w1 = lastSyncedSignature w"
    by (rule ensureRemoteDir_ok)
  show ?thesis
    using ok w1 ls rs same
    by (simp add: uploadRun_def statLocal_def statRemote_def logCall_def Let_def)
qed

text \<open>
  C6. An upload whose remote file exists with a signature equal to the local
  one (under \<open>isSameSignature\<close>) resolves without error; the calls it makes
  are the directory chain and the two stats, so no put and no rename is
  issued, and the remote files are what they were. The hypotheses say what
  the claim presupposes: the target is configured, no \<open>mkdir\<close> times out
  and both stats answer.
\<close>

theorem upload_in_sync_no_transfer:
  assumes ok: "targetOk w"
    and dirs: "\<forall>d\<in>set (remoteDirs (dirname remotePath)). outcomeOf w (MkdirRemote d) \<noteq> TimedOut"
    and ls: "outcomeOf w (StatLocal localPath) = Done" "lfiles w localPath = Some lf"
    and rs: "outcomeOf w (StatRemote remotePath) = Done" "rfiles w remotePath = Some rf"
    and same: "isSameSignature (localSignatureOf lf) (remoteSignatureOf rf)"
  shows "fst (uploadRun localPath remotePath aborted w) = None
    \<and> calls (snd (uploadRun localPath remotePath aborted w)) =
        calls w @ map MkdirRemote (remoteDirs (dirname remotePath))
                @ [StatLocal localPath, StatRemote remotePath]
    \<and> filter isPutOrRename (calls (snd (uploadRun localPath remotePath aborted w))) =
        filter isPutOrRename (calls w)
    \<and> rfiles (snd (uploadRun localPath remotePath aborted w)) = rfiles w"
proof -
  from dirs obtain w1 where w1: "ensureRemoteDir (dirname remotePath) w = (None, w1)"
    "calls w1 = calls w @ map MkdirRemote (remoteDirs (dirname remotePath))"
    "lfiles w1 = lfiles w" "rfiles w1 = rfiles w" "outcomeOf w1 = outcomeOf w"
    by (rule ensureRemoteDir_ok)
  show ?thesis
    using ok w1 ls rs same
    by (simp add: uploadRun_def statLocal_def statRemote_def logCall_def Let_def)
qed

theorem upload_in_sync_no_transfer_witness:
  "fst (uploadRun ''/ws/a.txt'' ''/r/a.txt'' False exampleWorld) = None
   \<and> calls (snd (uploadRun ''/ws/a.txt'' ''/r/a.txt'' False exampleWorld)) =
       [MkdirRemote ''/r'', StatLocal ''/ws/a.txt'', StatRemote ''/r/a.txt'']"
  using upload_in_sync_no_transfer [of exampleWorld "''/r/a.txt''" "''/ws/a.txt''"
      "\<lparr>l_size = 10, l_mtimeMs = 7500, l_data = ''local''\<rparr>"
      "\<lparr>r_size = 10, r_mtime = 9, r_data = ''remote''\<rparr>" False]
  by (simp add: exampleWorld_def remoteDirs_example isSameSignature_def
      localSignatureOf_def remoteSignatureOf_def)

text \<open>
  C10. \<open>isSameSignature\<close> holds exactly when the sizes are equal and the
  second-granular timestamps differ by at most 2. So an upload, and a
  download, whose local and remote files have the same size and timestamps
  up to two seconds apart is skipped: it resolves and issues no put or remote
  rename (upload), no get or local rename (download).
\<close>

theorem signature_tolerance:
  "(isSameSignature a b \<longleftrightarrow> size_sig a = size_sig b \<and> \<bar>mtimeSec a - mtimeSec b\<bar> \<le> 2)
   \<and> (targetOk w
        \<and> (\<forall>d\<in>set (remoteDirs (dirname remotePath)). outcomeOf w (MkdirRemote d) \<noteq> TimedOut)
        \<and> outcomeOf w (StatLocal localPath) = Done \<and> lfiles w localPath = Some lf
        \<and> outcomeOf w (StatRemote remotePath) = Done \<and> rfiles w remotePath = Some rf
        \<and> l_size lf = r_size rf \<and> \<bar>l_mtimeMs lf div 1000 - r_mtime rf\<bar> \<le> 2
      \<longrightarrow> fst (uploadRun localPath remotePath aborted w) = None
        \<and> filter isPutOrRename (calls (snd (uploadRun localPath remotePath aborted w))) =
            filter isPutOrRename (calls w))
   \<and> (outcomeOf w (StatLocal localPath) = Done \<and> lfiles w localPath = Some lf
        \<and> outcomeOf w (StatRemote remotePath) = Done \<and> rfiles w remotePath = Some rf
        \<and> l_size lf = r_size rf \<and> \<bar>l_mtimeMs lf div 1000 - r_mtime rf\<bar> \<le> 2
      \<longrightarrow> fst (downloadRun localPath remotePath aborted w) = None
        \<and> filter isGetOrRename (calls (snd (downloadRun localPath remotePath aborted w))) =
            filter isGetOrRename (calls w))"
proof (intro conjI impI)
  show "isSameSignature a b \<longleftrightarrow> size_sig a = size_sig b \<and> \<bar>mtimeSec a - mtimeSec b\<bar> \<le> 2"
    by (simp add: isSameSignature_def)
next
  assume h: "targetOk w
        \<and> (\<forall>d\<in>set (remoteDirs (dirname remotePath)). outcomeOf w (MkdirRemote d) \<noteq> TimedOut)
        \<and> outcomeOf w (StatLocal localPath) = Done \<and> lfiles w localPath = Some lf
        \<and> outcomeOf w (StatRemote remotePath) = Done \<and> rfiles w remotePath = Some rf
        \<and> l_size lf = r_size rf \<and> \<bar>l_mtimeMs lf div 1000 - r_mtime rf\<bar> \<le> 2"
  then have same: "isSameSignature (localSignatureOf lf) (remoteSignatureOf rf)"
    by (simp add: isSameSignature_def localSignatureOf_def remoteSignatureOf_def)
  have eq: "uploadRun localPath remotePath aborted w =
     (None, (snd (ensureRemoteDir (dirname remotePath) w))
        \<lparr>calls := calls w @ map MkdirRemote (remoteDirs (dirname remotePath))
                  @ [StatLocal localPath, StatRemote remotePath],
         lastSyncedSignature := (lastSyncedSignature w)(localPath \<mapsto> localSignatureOf lf)\<rparr>)"
    using h same by (intro upload_skips) simp_all
  show "fst (uploadRun localPath remotePath aborted w) = None"
    by (simp add: eq)
  show "filter isPutOrRename (calls (snd (uploadRun localPath remotePath aborted w))) =
            filter isPutOrRename (calls w)"
    by (simp add: eq)
next
  assume h: "outcomeOf w (StatLocal localPath) = Done \<and> lfiles w localPath = Some lf
        \<and> outcomeOf w (StatRemote remotePath) = Done \<and> rfiles w remotePath = Some rf
        \<and> l_size lf = r_size rf \<and> \<bar>l_mtimeMs lf div 1000 - r_mtime rf\<bar> \<le> 2"
  then have same: "isSameSignature (localSignatureOf lf) (remoteSignatureOf rf)"
    by (simp add: isSameSignature_def localSignatureOf_def remoteSignatureOf_def)
  with h show "fst (downloadRun localPath remotePath aborted w) = None"
    by (simp add: downloadRun_def statLocal_def statRemote_def logCall_def Let_def)
  from h same show "filter isGetOrRename (calls (snd (downloadRun localPath remotePath aborted w))) =
            filter isGetOrRename (calls w)"
    by (simp add: downloadRun_def statLocal_def statRemote_def logCall_def Let_def)
qed

theorem signature_tolerance_witness:
  "isSameSignature \<lparr>size_sig = 10, mtimeSec = 7\<rparr> \<lparr>size_sig = 10, mtimeSec = 9\<rparr>
   \<and> fst (uploadRun ''/ws/a.txt'' ''/r/a.txt'' False exampleWorld) = None
   \<and> filter isPutOrRename (calls (snd (uploadRun ''/ws/a.txt'' ''/r/a.txt'' False exampleWorld))) = []
   \<and> fst (downloadRun ''/ws/a.txt'' ''/r/a.txt'' False exampleWorld) = None
   \<and> filter isGetOrRename (calls (snd (downloadRun ''/ws/a.txt'' ''/r/a.txt'' False exampleWorld))) = []"
  using signature_tolerance [of "\<lparr>size_sig = 10, mtimeSec = 7\<rparr>" "\<lparr>size_sig = 10, mtimeSec = 9\<rparr>"
      exampleWorld "''/r/a.txt''" "''/ws/a.txt''"
      "\<lparr>l_size = 10, l_mtimeMs = 7500, l_data = ''local''\<rparr>"
      "\<lparr>r_size = 10, r_mtime = 9, r_data = ''remote''\<rparr>" False]
  by (simp add: exampleWorld_def remoteDirs_example)

subsection \<open>The transfer\<close>

text \<open>
  C7. In an upload that reaches the transfer (the stats answer, the remote
  signature seen is not the local one, and there is no three-way conflict),
  the signature ledger and the pending-change ledger change exactly when the
  put and then the rename have both succeeded; when the job is aborted or
  either call raises, the action rejects and both ledgers are what they were.
\<close>

theorem upload_ledgers_after_rename:
  assumes ok: "targetOk w"
    and dirs: "\<forall>d\<in>set (remoteDirs (dirname remotePath)). outcomeOf w (MkdirRemote d) \<noteq> TimedOut"
    and ls: "outcomeOf w (StatLocal localPath) = Done" "lfiles w localPath = Some lf"
    and seen: "seen = (if outcomeOf w (StatRemote remotePath) = Done then rfiles w remotePath else None)"
    and unmatched: "\<forall>rf. seen = Some rf \<longrightarrow> \<not> isSameSignature (localSignatureOf lf) (remoteSignatureOf rf)"
    and noconflict: "\<not> (\<exists>known rf. lastSyncedSignature w localPath = Some known \<and> seen = Some rf
          \<and> \<not> isSameSignature known (localSignatureOf lf)
          \<and> \<not> isSameSignature known (remoteSignatureOf rf))"
  shows "(case uploadRun localPath remotePath aborted w of (res, w') \<Rightarrow>
     if \<not> aborted \<and> outcomeOf w (FastPut localPath (tempRemotePath remotePath)) = Done
        \<and> outcomeOf w (RenameRemote (tempRemotePath remotePath) remotePath) = Done
     then res = None
        \<and> lastSyncedSignature w' = (lastSyncedSignature w)(localPath \<mapsto> localSignatureOf lf)
        \<and> pendingChanges w' = (pendingChanges w)(localPath := None)
        \<and> calls w' = calls w @ map MkdirRemote (remoteDirs (dirname remotePath))
             @ [StatLocal localPath, StatRemote remotePath,
                FastPut localPath (tempRemotePath remotePath),
                RenameRemote (tempRemotePath remotePath) remotePath]
     else res \<noteq> None
        \<and> lastSyncedSignature w' = lastSyncedSignature w
        \<and> pendingChanges w' = pendingChanges w)"
proof -
  from dirs obtain w1 where w1: "ensureRemoteDir (dirname remotePath) w = (None, w1)"
    "calls w1 = calls w @ map MkdirRemote (remoteDirs (dirname remotePath))"
    "lfiles w1 = lfiles w" "rfiles w1 = rfiles w" "outcomeOf w1 = outcomeOf w"
    "lastSyncedSignature w1 = lastSyncedSignature w" "pendingChanges w1 = pendingChanges w"
    by (rule ensureRemoteDir_ok)
  show ?thesis
  proof (cases seen)
    case None
    then have r: "(case outcomeOf w (StatRemote remotePath) of
        Done \<Rightarrow> rfiles w remotePath | _ \<Rightarrow> None) = None"
      using seen by (auto split: outcome.splits if_splits)
    show ?thesis
      using ok w1 ls r
      by (simp add: uploadRun_def statLocal_def statRemote_def logCall_def Let_def
          fastPut_def renameRemote_def normalizePath_def
          split: outcome.splits option.splits)
  next
    case (Some rf)
    then have r: "outcomeOf w (StatRemote remotePath) = Done" "rfiles w remotePath = Some rf"
      using seen by (auto split: if_splits)
    have u: "\<not> isSameSignature (localSignatureOf lf) (remoteSignatureOf rf)"
      using unmatched Some by simp
    have n: "\<And>known. lastSyncedSignature w localPath = Some known \<Longrightarrow>
       \<not> isSameSignature known (localSignatureOf lf) \<Longrightarrow>
       isSameSignature known (remoteSignatureOf rf)"
      using noconflict Some by blast
    show ?thesis
      using ok w1 ls r u n
      by (auto simp add: uploadRun_def statLocal_def statRemote_def logCall_def Let_def
          fastPut_def renameRemote_def normalizePath_def
          split: outcome.splits option.splits)
  qed
qed

theorem upload_ledgers_after_rename_witness:
  "fst (uploadRun ''/ws/a.txt'' ''/r/a.txt'' False transferWorld) = None
   \<and> lastSyncedSignature (snd (uploadRun ''/ws/a.txt'' ''/r/a.txt'' False transferWorld)) ''/ws/a.txt''
       = Some \<lparr>size_sig = 11, mtimeSec = 7\<rparr>
   \<and> pendingChanges (snd (uploadRun ''/ws/a.txt'' ''/r/a.txt'' False transferWorld)) ''/ws/a.txt''
       = None"
proof -
  let ?lf = "\<lparr>l_size = 11, l_mtimeMs = 7500, l_data = ''local''\<rparr>"
  let ?rf = "\<lparr>r_size = 10, r_mtime = 1, r_data = ''remote''\<rparr>"
  have 1: "targetOk transferWorld" by (simp add: transferWorld_def)
  have 2: "\<forall>d\<in>set (remoteDirs (dirname ''/r/a.txt'')). outcomeOf transferWorld (MkdirRemote d) \<noteq> TimedOut"
    by (simp add: transferWorld_def)
  have 3: "outcomeOf transferWorld (StatLocal ''/ws/a.txt'') = Done" by (simp add: transferWorld_def)
  have 4: "lfiles transferWorld ''/ws/a.txt'' = Some ?lf" by (simp add: transferWorld_def)
  have 5: "Some ?rf = (if outcomeOf transferWorld (StatRemote ''/r/a.txt'') = Done
      then rfiles transferWorld ''/r/a.txt'' else None)" by (simp add: transferWorld_def)
  have 6: "\<forall>rf. Some ?rf = Some rf \<longrightarrow> \<not> isSameSignature (localSignatureOf ?lf) (remoteSignatureOf rf)"
    by (simp add: isSameSignature_def localSignatureOf_def remoteSignatureOf_def)
  have 7: "\<not> (\<exists>known rf. lastSyncedSignature transferWorld ''/ws/a.txt'' = Some known \<and> Some ?rf = Some rf
          \<and> \<not> isSameSignature known (localSignatureOf ?lf)
          \<and> \<not> isSameSignature known (remoteSignatureOf rf))"
    by (simp add: transferWorld_def isSameSignature_def localSignatureOf_def remoteSignatureOf_def)
  have 8: "outcomeOf transferWorld (FastPut ''/ws/a.txt'' (tempRemotePath ''/r/a.txt'')) = Done"
     "outcomeOf transferWorld (RenameRemote (tempRemotePath ''/r/a.txt'') ''/r/a.txt'') = Done"
    by (simp_all add: transferWorld_def)
  show ?thesis
    using upload_ledgers_after_rename [OF 1 2 3 4 5 6 7, of False] 8
    by (simp add: case_prod_beta localSignatureOf_def)
qed

subsection \<open>The conflict\<close>

text \<open>
  C1. An upload on a path with baseline \<open>S0\<close>, local signature \<open>S1\<close> and
  remote signature \<open>S2\<close>, pairwise different under \<open>isSameSignature\<close>,
  resolves after recording exactly one conflict, in front of the older ones,
  which names one local and one remote artifact path beside the original,
  different from each other and from the original. The calls it makes are the directory chain, the two
  stats, one copy and one get: no put and no rename. The remote files and
  both ledgers are what they were; of the local files only the two artifact
  paths can change, and each artifact holds the copied content when its copy
  succeeds (a failed copy is swallowed by the action). The hypotheses say what
  the claim presupposes: the target is configured, no \<open>mkdir\<close> times out
  and both stats answer.
\<close>

theorem upload_conflict_artifacts:
  assumes ok: "targetOk w"
    and dirs: "\<forall>d\<in>set (remoteDirs (dirname remotePath)). outcomeOf w (MkdirRemote d) \<noteq> TimedOut"
    and ls: "outcomeOf w (StatLocal localPath) = Done" "lfiles w localPath = Some lf"
    and rs: "outcomeOf w (StatRemote remotePath) = Done" "rfiles w remotePath = Some rf"
    and base: "lastSyncedSignature w localPath = Some S0"
    and S1: "S1 = localSignatureOf lf" and S2: "S2 = remoteSignatureOf rf"
    and div: "\<not> isSameSignature S1 S2" "\<not> isSameSignature S0 S1" "\<not> isSameSignature S0 S2"
    and res: "uploadRun localPath remotePath aborted w = (res, w')"
    and lc: "lc = localConflictPath localPath (now w)"
    and rc: "rc = remoteConflictPath localPath (now w)"
  shows "res = None
    \<and> conflicts w' = (localPath, lc, rc) # conflicts w
    \<and> lc \<noteq> rc \<and> lc \<noteq> localPath \<and> rc \<noteq> localPath
    \<and> calls w' = calls w @ map MkdirRemote (remoteDirs (dirname remotePath))
         @ [StatLocal localPath, StatRemote remotePath, CopyFile localPath lc, FastGet remotePath rc]
    \<and> filter isPutOrRename (calls w') = filter isPutOrRename (calls w)
    \<and> rfiles w' = rfiles w
    \<and> lastSyncedSignature w' = lastSyncedSignature w
    \<and> pendingChanges w' = pendingChanges w
    \<and> (\<forall>p. p \<noteq> lc \<and> p \<noteq> rc \<longrightarrow> lfiles w' p = lfiles w p)
    \<and> (outcomeOf w (CopyFile localPath lc) = Done \<longrightarrow>
          lfiles w' lc = Some (lf\<lparr>l_mtimeMs := int (now w)\<rparr>))
    \<and> (outcomeOf w (FastGet remotePath rc) = Done \<longrightarrow>
          lfiles w' rc = Some \<lparr>l_size = r_size rf, l_mtimeMs = int (now w), l_data = r_data rf\<rparr>)"
proof -
  from dirs obtain w1 where w1: "ensureRemoteDir (dirname remotePath) w = (None, w1)"
    "calls w1 = calls w @ map MkdirRemote (remoteDirs (dirname remotePath))"
    "lfiles w1 = lfiles w" "rfiles w1 = rfiles w" "outcomeOf w1 = outcomeOf w"
    "lastSyncedSignature w1 = lastSyncedSignature w" "pendingChanges w1 = pendingChanges w"
    "conflicts w1 = conflicts w" "now w1 = now w"
    by (rule ensureRemoteDir_ok)
  have d: "lc \<noteq> rc" "lc \<noteq> localPath" "rc \<noteq> localPath" "rc \<noteq> lc"
    by (simp_all add: lc rc localConflictPath_def remoteConflictPath_def)
  have run: "uploadRun localPath remotePath aborted w =
      (None, createConflictArtifacts localPath remotePath
         (w1\<lparr>calls := calls w1 @ [StatLocal localPath, StatRemote remotePath]\<rparr>))"
    using ok w1 ls rs base div S1 S2
    by (simp add: uploadRun_def statLocal_def statRemote_def logCall_def Let_def)
  show ?thesis
    using res d w1 ls rs
    unfolding run lc rc
    by (auto simp add: createConflictArtifacts_def markPathIgnored_def copyFile_def fastGet_def
        logCall_def Let_def split: outcome.splits)
qed

theorem upload_conflict_artifacts_witness:
  "fst (uploadRun ''/ws/a.txt'' ''/r/a.txt'' False conflictWorld) = None
   \<and> conflicts (snd (uploadRun ''/ws/a.txt'' ''/r/a.txt'' False conflictWorld)) =
       (''/ws/a.txt'', ''/ws/a.txt.conflict.LOCAL.5000'', ''/ws/a.txt.conflict.REMOTE.5000'')
         # conflicts conflictWorld
   \<and> length (conflicts conflictWorld) = 1
   \<and> rfiles (snd (uploadRun ''/ws/a.txt'' ''/r/a.txt'' False conflictWorld)) = rfiles conflictWorld
   \<and> filter isPutOrRename (calls (snd (uploadRun ''/ws/a.txt'' ''/r/a.txt'' False conflictWorld))) = []
   \<and> lfiles (snd (uploadRun ''/ws/a.txt'' ''/r/a.txt'' False conflictWorld))
       ''/ws/a.txt.conflict.REMOTE.5000'' =
       Some \<lparr>l_size = 12, l_mtimeMs = 5000, l_data = ''remote''\<rparr>"
proof -
  let ?lf = "\<lparr>l_size = 11, l_mtimeMs = 7500, l_data = ''local''\<rparr>"
  let ?rf = "\<lparr>r_size = 12, r_mtime = 9, r_data = ''remote''\<rparr>"
  let ?S0 = "\<lparr>size_sig = 10, mtimeSec = 1\<rparr>"
  let ?run = "uploadRun ''/ws/a.txt'' ''/r/a.txt'' False conflictWorld"
  have 1: "targetOk conflictWorld" by (simp add: conflictWorld_def)
  have 2: "\<forall>d\<in>set (remoteDirs (dirname ''/r/a.txt'')). outcomeOf conflictWorld (MkdirRemote d) \<noteq> TimedOut"
    by (simp add: conflictWorld_def)
  have 3: "outcomeOf conflictWorld (StatLocal ''/ws/a.txt'') = Done" by (simp add: conflictWorld_def)
  have 4: "lfiles conflictWorld ''/ws/a.txt'' = Some ?lf" by (simp add: conflictWorld_def)
  have 5: "outcomeOf conflictWorld (StatRemote ''/r/a.txt'') = Done" by (simp add: conflictWorld_def)
  have 6: "rfiles conflictWorld ''/r/a.txt'' = Some ?rf" by (simp add: conflictWorld_def)
  have 7: "lastSyncedSignature conflictWorld ''/ws/a.txt'' = Some ?S0" by (simp add: conflictWorld_def)
  have 8: "\<not> isSameSignature (localSignatureOf ?lf) (remoteSignatureOf ?rf)"
    "\<not> isSameSignature ?S0 (localSignatureOf ?lf)" "\<not> isSameSignature ?S0 (remoteSignatureOf ?rf)"
    by (simp_all add: isSameSignature_def localSignatureOf_def remoteSignatureOf_def)
  have 9: "?run = (fst ?run, snd ?run)" by simp
  have 10: "''/ws/a.txt.conflict.LOCAL.5000'' = localConflictPath ''/ws/a.txt'' (now conflictWorld)"
    "''/ws/a.txt.conflict.REMOTE.5000'' = remoteConflictPath ''/ws/a.txt'' (now conflictWorld)"
    by (simp_all add: conflictWorld_def localConflictPath_def remoteConflictPath_def)
  have 11: "outcomeOf conflictWorld (FastGet ''/r/a.txt'' ''/ws/a.txt.conflict.REMOTE.5000'') = Done"
    "calls conflictWorld = []" "length (conflicts conflictWorld) = 1" "now conflictWorld = 5000"
    by (simp_all add: conflictWorld_def)
  show ?thesis
    using upload_conflict_artifacts [OF 1 2 3 4 5 6 7 refl refl 8 9 10] 11
    by simp
qed
section \<open>Properties of the transfer queue\<close>

subsection \<open>The schedule loop\<close>

declare scheduleLoop.simps [simp del]

lemma scheduleLoop_stop:
  "\<not> (of_nat (length (inflight q)) < maxConcurrency q \<and> pending q \<noteq> []) \<Longrightarrow> scheduleLoop q = q"
  by (subst scheduleLoop.simps) (rule if_not_P, assumption)

lemma scheduleLoop_drop:
  "of_nat (length (inflight q)) < maxConcurrency q \<Longrightarrow> pending q = r # rest \<Longrightarrow>
   signalAborted (heap q r) \<Longrightarrow>
   scheduleLoop q = scheduleLoop (q\<lparr>pending := rest, dedupe := AList.delete (key (heap q r)) (dedupe q)\<rparr>)"
  by (subst scheduleLoop.simps) (simp add: Let_def)

lemma scheduleLoop_start:
  "of_nat (length (inflight q)) < maxConcurrency q \<Longrightarrow> pending q = r # rest \<Longrightarrow>
   \<not> signalAborted (heap q r) \<Longrightarrow>
   scheduleLoop q = scheduleLoop (q\<lparr>pending := rest,
       inflight := AList.update (jobId (heap q r)) r (inflight q),
       emitted := emitted q @ [(JobStarted r, length rest + length (AList.update (jobId (heap q r)) r (inflight q)))],
       running := running q @ [r]\<rparr>)"
  by (subst scheduleLoop.simps) (simp add: Let_def emit_def snapshotTotal_def)

text \<open>Induction over the loop, one case per way through its body.\<close>

lemma scheduleLoop_cases [case_names stop drop start]:
  assumes "\<And>q. \<not> (of_nat (length (inflight q)) < maxConcurrency q \<and> pending q \<noteq> []) \<Longrightarrow> P q"
    and "\<And>q r rest. of_nat (length (inflight q)) < maxConcurrency q \<Longrightarrow> pending q = r # rest \<Longrightarrow>
          signalAborted (heap q r) \<Longrightarrow>
          P (q\<lparr>pending := rest, dedupe := AList.delete (key (heap q r)) (dedupe q)\<rparr>) \<Longrightarrow> P q"
    and "\<And>q r rest. of_nat (length (inflight q)) < maxConcurrency q \<Longrightarrow> pending q = r # rest \<Longrightarrow>
          \<not> signalAborted (heap q r) \<Longrightarrow>
          P (q\<lparr>pending := rest,
               inflight := AList.update (jobId (heap q r)) r (inflight q),
               emitted := emitted q @ [(JobStarted r, length rest + length (AList.update (jobId (heap q r)) r (inflight q)))],
               running := running q @ [r]\<rparr>) \<Longrightarrow> P q"
  shows "P q"
proof (induction "length (pending q)" arbitrary: q rule: less_induct)
  case less
  show ?case
  proof (cases "of_nat (length (inflight q)) < maxConcurrency q \<and> pending q \<noteq> []")
    case False
    then show ?thesis by (rule assms(1))
  next
    case True
    then obtain r rest where p: "pending q = r # rest" by (cases "pending q") auto
    show ?thesis
    proof (cases "signalAborted (heap q r)")
      case True
      show ?thesis
        by (rule assms(2) [OF _ p True]) (use \<open>_ \<and> _\<close> p in \<open>auto intro!: less\<close>)
    next
      case False
      show ?thesis
        by (rule assms(3) [OF _ p False]) (use \<open>_ \<and> _\<close> p in \<open>auto intro!: less\<close>)
    qed
  qed
qed

lemma scheduleLoop_frame:
  "heap (scheduleLoop q) = heap q \<and> nextRef (scheduleLoop q) = nextRef q
   \<and> timers (scheduleLoop q) = timers q \<and> online (scheduleLoop q) = online q
   \<and> maxConcurrency (scheduleLoop q) = maxConcurrency q"
proof (induction q rule: scheduleLoop_cases)
  case (stop q)
  then show ?case by (simp add: scheduleLoop_stop)
next
  case (drop q r rest)
  then show ?case by (simp add: scheduleLoop_drop)
next
  case (start q r rest)
  then show ?case by (simp add: scheduleLoop_start)
qed

lemma schedule_frame:
  "heap (schedule q) = heap q \<and> nextRef (schedule q) = nextRef q
   \<and> timers (schedule q) = timers q \<and> online (schedule q) = online q
   \<and> maxConcurrency (schedule q) = maxConcurrency q"
  by (simp add: schedule_def emit_def scheduleLoop_frame)


lemma length_update_le: "length (AList.update k v al) \<le> Suc (length al)"
  by (induction al) (auto simp: AList.update.simps)

lemma scheduleLoop_inflight_bound:
  "int (length (inflight (scheduleLoop q))) \<le> max (int (length (inflight q))) \<lceil>maxConcurrency q\<rceil>"
proof (induction q rule: scheduleLoop_cases)
  case (stop q)
  then show ?case by (simp add: scheduleLoop_stop)
next
  case (drop q r rest)
  then show ?case by (simp add: scheduleLoop_drop)
next
  case (start q r rest)
  have "length (AList.update (jobId (heap q r)) r (inflight q)) \<le> Suc (length (inflight q))"
    by (rule length_update_le)
  moreover have "int (length (inflight q)) < \<lceil>maxConcurrency q\<rceil>"
    using start(1) by (simp add: less_ceiling_iff)
  ultimately show ?case using start(4) by (simp add: scheduleLoop_start [OF start(1,2,3)])
qed

lemma schedule_inflight_bound:
  "int (length (inflight (schedule q))) \<le> max (int (length (inflight q))) \<lceil>maxConcurrency q\<rceil>"
  using scheduleLoop_inflight_bound [of q] by (simp add: schedule_def emit_def)

lemma executeFinally_inflight_bound:
  "int (length (inflight (executeFinally r q))) \<le> max (int (length (inflight q))) \<lceil>maxConcurrency q\<rceil>"
proof -
  let ?q1 = "emit QueueChanged (q\<lparr>inflight := AList.delete (jobId (heap q r)) (inflight q)\<rparr>)"
  have "length (inflight ?q1) \<le> length (inflight q)"
    by (simp add: emit_def length_delete_le)
  moreover have "maxConcurrency ?q1 = maxConcurrency q" by (simp add: emit_def)
  ultimately show ?thesis
    using schedule_inflight_bound [of ?q1] by (simp add: executeFinally_def)
qed

lemma step_maxConcurrency:
  "maxConcurrency (step a q) = (case a of UpdateConcurrency n \<Rightarrow> max 1 n | _ \<Rightarrow> maxConcurrency q)"
  by (cases a)
    (simp_all add: enqueue_def setOnline_def updateConcurrency_def cancelByKey_def
      executeResolved_def executeRejected_def executeFinally_def retryTimerFired_def
      schedule_frame emit_def sortPending_def dropFromPending_def abort_def Let_def
      split: option.splits)

lemma step_inflight_bound:
  "int (length (inflight (step a q))) \<le> max (int (length (inflight q))) \<lceil>maxConcurrency (step a q)\<rceil>"
proof (cases a)
  case (Enqueue job)
  define q5 where "q5 = (let r = nextRef q;
          q0 = q\<lparr>heap := (heap q)(r := job), nextRef := Suc r\<rparr>;
          q1 = (case map_of (dedupe q0) (key job) of
                  None \<Rightarrow> q0
                | Some existing \<Rightarrow>
                    if map_of (inflight q0) (jobId (heap q0 existing)) = None
                    then dropFromPending existing (abort existing q0)
                    else q0);
          q2 = q1\<lparr>pending := pending q1 @ [r]\<rparr>;
          q3 = sortPending q2;
          q4 = q3\<lparr>dedupe := AList.update (key job) r (dedupe q3)\<rparr>
      in emit QueueChanged q4)"
  have "inflight q5 = inflight q" "maxConcurrency q5 = maxConcurrency q"
    by (simp_all add: q5_def Let_def emit_def sortPending_def dropFromPending_def abort_def
        split: option.splits)
  moreover have "step a q = schedule q5"
    by (simp add: Enqueue enqueue_def q5_def Let_def)
  ultimately show ?thesis
    using schedule_inflight_bound [of q5] by (simp add: schedule_frame)
next
  case (SetOnline v)
  then show ?thesis
    using schedule_inflight_bound [of "q\<lparr>online := v\<rparr>"]
    by (cases v) (simp_all add: setOnline_def Let_def schedule_frame)
next
  case (UpdateConcurrency n)
  then show ?thesis
    using schedule_inflight_bound [of "q\<lparr>maxConcurrency := max 1 n\<rparr>"]
    by (simp add: updateConcurrency_def schedule_frame)
next
  case (CancelByKey k)
  then show ?thesis
    using length_delete_le [of _ "inflight q"]
    by (auto simp add: cancelByKey_def Let_def emit_def dropFromPending_def abort_def
        le_max_iff_disj split: option.splits)
next
  case (RunResolved r)
  show ?thesis
  proof (cases "r \<in> set (running q)")
    case True
    let ?q = "q\<lparr>running := remove1 r (running q)\<rparr>"
    let ?q2 = "(emit (JobCompleted r) ?q)\<lparr>dedupe := AList.delete (key (heap ?q r)) (dedupe ?q)\<rparr>"
    have "step a q = executeFinally r ?q2"
      using True RunResolved by (simp add: executeResolved_def Let_def emit_def)
    then show ?thesis
      using executeFinally_inflight_bound [of r ?q2] step_maxConcurrency [of a q] RunResolved
      by (simp add: emit_def)
  qed (simp add: RunResolved)
next
  case (RunRejected r)
  show ?thesis
  proof (cases "r \<in> set (running q)")
    case True
    let ?q = "q\<lparr>running := remove1 r (running q)\<rparr>"
    have "\<exists>q2. step a q = executeFinally r q2 \<and> inflight q2 = inflight q
        \<and> maxConcurrency q2 = maxConcurrency q"
      using True RunRejected
      by (auto simp add: executeRejected_def Let_def emit_def)
    then obtain q2 where q2: "step a q = executeFinally r q2" "inflight q2 = inflight q"
      "maxConcurrency q2 = maxConcurrency q" by blast
    then show ?thesis
      using executeFinally_inflight_bound [of r q2] step_maxConcurrency [of a q] RunRejected
      by simp
  qed (simp add: RunRejected)
next
  case (TimerFired r)
  show ?thesis
  proof (cases "map_of (timers q) r \<noteq> None")
    case True
    let ?q = "q\<lparr>timers := AList.delete r (timers q)\<rparr>"
    let ?q3 = "sortPending (?q\<lparr>inflight := AList.delete (jobId (heap ?q r)) (inflight ?q),
                 pending := pending ?q @ [r]\<rparr>)"
    have "step a q = schedule ?q3"
      using True TimerFired by (simp add: retryTimerFired_def Let_def)
    moreover have "length (inflight ?q3) \<le> length (inflight q)"
      "maxConcurrency ?q3 = maxConcurrency q"
      by (simp_all add: sortPending_def length_delete_le)
    ultimately show ?thesis
      using schedule_inflight_bound [of ?q3] by (simp add: schedule_frame)
  qed (simp add: TimerFired)
qed

lemma steps_bound:
  "int (length (inflight q)) \<le> \<lceil>maxConcurrency q\<rceil> \<Longrightarrow> respectsRunning as q \<Longrightarrow>
   int (length (inflight (steps as q))) \<le> \<lceil>maxConcurrency (steps as q)\<rceil>"
proof (induction as arbitrary: q)
  case Nil
  then show ?case by simp
next
  case (Cons a as)
  have "int (length (inflight (step a q))) \<le> \<lceil>maxConcurrency (step a q)\<rceil>"
    using step_inflight_bound [of a q] step_maxConcurrency [of a q] Cons.prems
    by (cases a) auto
  then show ?case using Cons by simp
qed

subsection \<open>One pending job for each dedup key\<close>

lemma pendingKeyed_refs_distinct:
  "pendingKeyed q \<Longrightarrow> distinct (pending q)"
  unfolding pendingKeyed_def by (blast dest: distinct_map [THEN iffD1])

lemma pendingKeyed_entry:
  "pendingKeyed q \<Longrightarrow> x \<in> set (pending q) \<Longrightarrow>
   x < nextRef q \<and> map_of (dedupe q) (key (heap q x)) = Some x
   \<and> map_of (inflight q) (jobId (heap q x)) = None"
  unfolding pendingKeyed_def by blast

lemma pendingKeyed_key_inj:
  assumes "pendingKeyed q" "x \<in> set (pending q)" "y \<in> set (pending q)"
    and "key (heap q x) = key (heap q y)"
  shows "x = y"
proof -
  have "Some x = map_of (dedupe q) (key (heap q x))"
    using pendingKeyed_entry [OF assms(1,2)] by (rule_tac sym) blast
  also have "\<dots> = map_of (dedupe q) (key (heap q y))"
    by (simp only: assms(4))
  also have "\<dots> = Some y"
    using pendingKeyed_entry [OF assms(1,3)] by blast
  finally show ?thesis by (simp only: option.inject)
qed

lemma pendingKeyed_keys_distinct:
  assumes "pendingKeyed q"
  shows "distinct (map (\<lambda>r. key (heap q r)) (pending q))"
proof -
  have "inj_on (\<lambda>r. key (heap q r)) (set (pending q))"
    by (rule inj_onI) (rule pendingKeyed_key_inj [OF assms])
  with pendingKeyed_refs_distinct [OF assms] show ?thesis
    by (simp add: distinct_map)
qed

lemma pendingKeyed_drop:
  assumes pk: "pendingKeyed q" and p: "pending q = r # rest"
  shows "pendingKeyed (q\<lparr>pending := rest, dedupe := AList.delete (key (heap q r)) (dedupe q)\<rparr>)"
proof -
  have "distinct (map (\<lambda>r. jobId (heap q r)) (pending q))"
    using pk unfolding pendingKeyed_def by blast
  then have d: "distinct (map (\<lambda>r. jobId (heap q r)) rest)"
    by (simp add: p)
  have nr: "r \<notin> set rest"
    using pendingKeyed_refs_distinct [OF pk] by (simp add: p)
  have each: "\<And>x. x \<in> set rest \<Longrightarrow> x < nextRef q
      \<and> map_of (dedupe q) (key (heap q x)) = Some x
      \<and> map_of (inflight q) (jobId (heap q x)) = None"
    using pendingKeyed_entry [OF pk] p by simp
  have k: "\<And>x. x \<in> set rest \<Longrightarrow> key (heap q x) \<noteq> key (heap q r)"
  proof
    fix x assume x: "x \<in> set rest" and e: "key (heap q x) = key (heap q r)"
    have "x = r" using pendingKeyed_key_inj [OF pk _ _ e] x p by simp
    with x nr show False by simp
  qed
  show ?thesis
    unfolding pendingKeyed_def
  proof (intro conjI ballI)
    show "distinct (map (\<lambda>x. jobId (heap (q\<lparr>pending := rest,
        dedupe := AList.delete (key (heap q r)) (dedupe q)\<rparr>) x))
        (pending (q\<lparr>pending := rest, dedupe := AList.delete (key (heap q r)) (dedupe q)\<rparr>)))"
      using d by simp
  next
    fix x assume "x \<in> set (pending (q\<lparr>pending := rest,
        dedupe := AList.delete (key (heap q r)) (dedupe q)\<rparr>))"
    then have x: "x \<in> set rest" by simp
    from each [OF x] k [OF x]
    show "x < nextRef (q\<lparr>pending := rest, dedupe := AList.delete (key (heap q r)) (dedupe q)\<rparr>)"
      "map_of (dedupe (q\<lparr>pending := rest, dedupe := AList.delete (key (heap q r)) (dedupe q)\<rparr>))
         (key (heap (q\<lparr>pending := rest, dedupe := AList.delete (key (heap q r)) (dedupe q)\<rparr>) x)) = Some x"
      "map_of (inflight (q\<lparr>pending := rest, dedupe := AList.delete (key (heap q r)) (dedupe q)\<rparr>))
         (jobId (heap (q\<lparr>pending := rest, dedupe := AList.delete (key (heap q r)) (dedupe q)\<rparr>) x)) = None"
      by (simp_all add: delete_conv')
  qed
qed

lemma pendingKeyed_start:
  assumes pk: "pendingKeyed q" and p: "pending q = r # rest"
  shows "pendingKeyed (q\<lparr>pending := rest,
               inflight := AList.update (jobId (heap q r)) r (inflight q),
               emitted := es, running := rs\<rparr>)"
proof -
  have "distinct (map (\<lambda>r. jobId (heap q r)) (pending q))"
    using pk unfolding pendingKeyed_def by blast
  then have d: "distinct (map (\<lambda>r. jobId (heap q r)) rest)"
    and n: "jobId (heap q r) \<notin> (\<lambda>r. jobId (heap q r)) ` set rest"
    by (simp_all add: p)
  have k: "\<And>x. x \<in> set rest \<Longrightarrow> jobId (heap q x) \<noteq> jobId (heap q r)"
  proof
    fix x assume "x \<in> set rest" "jobId (heap q x) = jobId (heap q r)"
    then have "jobId (heap q r) \<in> (\<lambda>r. jobId (heap q r)) ` set rest" by (metis imageI)
    with n show False by simp
  qed
  have each: "\<And>x. x \<in> set rest \<Longrightarrow> x < nextRef q
      \<and> map_of (dedupe q) (key (heap q x)) = Some x
      \<and> map_of (inflight q) (jobId (heap q x)) = None"
    using pendingKeyed_entry [OF pk] p by simp
  let ?q' = "q\<lparr>pending := rest,
               inflight := AList.update (jobId (heap q r)) r (inflight q),
               emitted := es, running := rs\<rparr>"
  show ?thesis
    unfolding pendingKeyed_def
  proof (intro conjI ballI)
    show "distinct (map (\<lambda>x. jobId (heap ?q' x)) (pending ?q'))"
      using d by simp
  next
    fix x assume "x \<in> set (pending ?q')"
    then have x: "x \<in> set rest" by simp
    from each [OF x] k [OF x]
    show "x < nextRef ?q'"
      "map_of (dedupe ?q') (key (heap ?q' x)) = Some x"
      "map_of (inflight ?q') (jobId (heap ?q' x)) = None"
      by (simp_all add: update_conv')
  qed
qed

lemma scheduleLoop_pendingKeyed:
  "pendingKeyed q \<longrightarrow> pendingKeyed (scheduleLoop q)"
proof (induction q rule: scheduleLoop_cases)
  case (stop q)
  then have "scheduleLoop q = q" by (rule scheduleLoop_stop)
  then show ?case by simp
next
  case (drop q r rest)
  have eq: "scheduleLoop q = scheduleLoop
      (q\<lparr>pending := rest, dedupe := AList.delete (key (heap q r)) (dedupe q)\<rparr>)"
    by (rule scheduleLoop_drop [OF drop(1,2,3)])
  show ?case
  proof
    assume "pendingKeyed q"
    then have "pendingKeyed (q\<lparr>pending := rest,
        dedupe := AList.delete (key (heap q r)) (dedupe q)\<rparr>)"
      using drop(2) by (rule pendingKeyed_drop)
    with drop(4) show "pendingKeyed (scheduleLoop q)"
      unfolding eq by (rule mp)
  qed
next
  case (start q r rest)
  have eq: "scheduleLoop q = scheduleLoop (q\<lparr>pending := rest,
       inflight := AList.update (jobId (heap q r)) r (inflight q),
       emitted := emitted q @ [(JobStarted r, length rest + length (AList.update (jobId (heap q r)) r (inflight q)))],
       running := running q @ [r]\<rparr>)"
    by (rule scheduleLoop_start [OF start(1,2,3)])
  show ?case
  proof
    assume "pendingKeyed q"
    then have "pendingKeyed (q\<lparr>pending := rest,
       inflight := AList.update (jobId (heap q r)) r (inflight q),
       emitted := emitted q @ [(JobStarted r, length rest + length (AList.update (jobId (heap q r)) r (inflight q)))],
       running := running q @ [r]\<rparr>)"
      using start(2) by (rule pendingKeyed_start)
    with start(4) show "pendingKeyed (scheduleLoop q)"
      unfolding eq by (rule mp)
  qed
qed

lemma pendingKeyed_emit [simp]: "pendingKeyed (emit ev q) = pendingKeyed q"
  by (simp add: pendingKeyed_def emit_def)

lemma schedule_pendingKeyed:
  "pendingKeyed q \<Longrightarrow> pendingKeyed (schedule q)"
  using scheduleLoop_pendingKeyed [of q] by (simp add: schedule_def)


text \<open>\<open>enqueue\<close> keeps every pending job the dedup entry of its key.\<close>

lemma enqueue_pendingKeyed:
  assumes pk: "pendingKeyed q"
    and fresh: "jobId job \<notin> (\<lambda>r. jobId (heap q r)) ` set (pending q)"
      "map_of (inflight q) (jobId job) = None"
  shows "pendingKeyed (enqueue job q)"
proof -
  let ?n = "nextRef q"
  let ?q0 = "q\<lparr>heap := (heap q)(?n := job), nextRef := Suc ?n\<rparr>"
  define q1 where "q1 = (case map_of (dedupe ?q0) (key job) of
                  None \<Rightarrow> ?q0
                | Some existing \<Rightarrow>
                    if map_of (inflight ?q0) (jobId (heap ?q0 existing)) = None
                    then dropFromPending existing (abort existing ?q0)
                    else ?q0)"
  define q4 where "q4 = (sortPending (q1\<lparr>pending := pending q1 @ [?n]\<rparr>))
      \<lparr>dedupe := AList.update (key job) ?n (dedupe q1)\<rparr>"
  note old = pendingKeyed_entry [OF pk]
  have ids: "distinct (map (\<lambda>r. jobId (heap q r)) (pending q))"
    using pk unfolding pendingKeyed_def by blast
  have q1_fields: "nextRef q1 = Suc ?n" "inflight q1 = inflight q" "dedupe q1 = dedupe q"
    "set (pending q1) \<subseteq> set (pending q)"
    "\<And>r. jobId (heap q1 r) = (if r = ?n then jobId job else jobId (heap q r))"
    "\<And>r. key (heap q1 r) = (if r = ?n then key job else key (heap q r))"
    by (auto simp add: q1_def dropFromPending_def abort_def split: option.splits)
  have q1_ids: "distinct (map (\<lambda>r. jobId (heap q r)) (pending q1))"
    using ids by (auto simp add: q1_def dropFromPending_def abort_def distinct_map_filter
        split: option.splits)
  have lt: "\<And>r. r \<in> set (pending q1) \<Longrightarrow> r < ?n"
    using old q1_fields(4) by blast
  have nokey: "\<And>r. r \<in> set (pending q1) \<Longrightarrow> key (heap q r) \<noteq> key job"
  proof
    fix r assume r: "r \<in> set (pending q1)" and k: "key (heap q r) = key job"
    from r q1_fields(4) have rq: "r \<in> set (pending q)" by blast
    from old [OF rq] k have d: "map_of (dedupe q) (key job) = Some r"
      and i: "map_of (inflight q) (jobId (heap q r)) = None" and l: "r < ?n" by simp_all
    have "r \<notin> set (pending q1)"
      using d i l by (simp add: q1_def dropFromPending_def abort_def)
    with r show False by simp
  qed
  have q4_fields: "nextRef q4 = Suc ?n" "inflight q4 = inflight q"
    "dedupe q4 = AList.update (key job) ?n (dedupe q)"
    "set (pending q4) = insert ?n (set (pending q1))"
    "\<And>r. jobId (heap q4 r) = (if r = ?n then jobId job else jobId (heap q r))"
    "\<And>r. key (heap q4 r) = (if r = ?n then key job else key (heap q r))"
    using q1_fields by (simp_all add: q4_def sortPending_def)
  have "pendingKeyed q4"
    unfolding pendingKeyed_def
  proof (intro conjI)
    have m: "map (\<lambda>r. jobId (heap q4 r)) (pending q1) = map (\<lambda>r. jobId (heap q r)) (pending q1)"
      using lt by (intro map_cong) (auto simp add: q4_fields(5))
    have e: "map (\<lambda>r. jobId (heap q4 r)) (pending q1 @ [?n]) =
        map (\<lambda>r. jobId (heap q r)) (pending q1) @ [jobId job]"
      unfolding map_append m by (simp add: q4_fields(5) [of ?n])
    have nf: "jobId job \<notin> (\<lambda>r. jobId (heap q r)) ` set (pending q1)"
      using fresh(1) q1_fields(4) by blast
    have "distinct (map (\<lambda>r. jobId (heap q r)) (pending q1) @ [jobId job])"
      using q1_ids nf by simp
    then have "distinct (map (\<lambda>r. jobId (heap q4 r)) (pending q1 @ [?n]))"
      by (simp only: e)
    then have "distinct (pending q1 @ [?n])"
      and "inj_on (\<lambda>r. jobId (heap q4 r)) (set (pending q1 @ [?n]))"
      by (simp_all only: distinct_map)
    moreover have "pending q4 = sort_key (\<lambda>j. priorityRank (priority (heap q1 j))) (pending q1 @ [?n])"
      by (simp add: q4_def sortPending_def)
    ultimately show "distinct (map (\<lambda>r. jobId (heap q4 r)) (pending q4))"
      by (simp add: distinct_map)
  next
    show "\<forall>r\<in>set (pending q4). r < nextRef q4
        \<and> map_of (dedupe q4) (key (heap q4 r)) = Some r
        \<and> map_of (inflight q4) (jobId (heap q4 r)) = None"
    proof
    fix r assume "r \<in> set (pending q4)"
    then have r: "r = ?n \<or> r \<in> set (pending q1)"
      by (simp add: q4_fields(4))
    show "r < nextRef q4 \<and> map_of (dedupe q4) (key (heap q4 r)) = Some r
        \<and> map_of (inflight q4) (jobId (heap q4 r)) = None"
    proof (cases "r = ?n")
      case True
      then show ?thesis
        using fresh(2) by (simp add: q4_fields update_conv')
    next
      case False
      with r have rq1: "r \<in> set (pending q1)" by simp
      with q1_fields(4) have rq: "r \<in> set (pending q)" by blast
      from old [OF rq] nokey [OF rq1] False show ?thesis
        by (simp add: q4_fields update_conv')
    qed
    qed
  qed
  then have "pendingKeyed (emit QueueChanged q4)" by simp
  then have "pendingKeyed (schedule (emit QueueChanged q4))" by (rule schedule_pendingKeyed)
  moreover have "enqueue job q = schedule (emit QueueChanged q4)"
    by (simp add: enqueue_def q4_def q1_def Let_def sortPending_def)
  ultimately show ?thesis by simp
qed

lemma scheduleLoop_inflight_keys:
  "map_of (inflight q) i \<noteq> None \<longrightarrow> map_of (inflight (scheduleLoop q)) i \<noteq> None"
proof (induction q rule: scheduleLoop_cases)
  case (stop q)
  then have "scheduleLoop q = q" by (rule scheduleLoop_stop)
  then show ?case by simp
next
  case (drop q r rest)
  have eq: "scheduleLoop q = scheduleLoop
      (q\<lparr>pending := rest, dedupe := AList.delete (key (heap q r)) (dedupe q)\<rparr>)"
    by (rule scheduleLoop_drop [OF drop(1,2,3)])
  from drop(4) show ?case unfolding eq by simp
next
  case (start q r rest)
  have eq: "scheduleLoop q = scheduleLoop (q\<lparr>pending := rest,
       inflight := AList.update (jobId (heap q r)) r (inflight q),
       emitted := emitted q @ [(JobStarted r, length rest + length (AList.update (jobId (heap q r)) r (inflight q)))],
       running := running q @ [r]\<rparr>)"
    by (rule scheduleLoop_start [OF start(1,2,3)])
  from start(4) show ?case unfolding eq by (simp add: update_conv')
qed

lemma scheduleLoop_keeps_or_starts:
  "x \<in> set (pending q) \<and> \<not> signalAborted (heap q x) \<longrightarrow>
   x \<in> set (pending (scheduleLoop q))
   \<or> map_of (inflight (scheduleLoop q)) (jobId (heap q x)) \<noteq> None"
proof (induction q rule: scheduleLoop_cases)
  case (stop q)
  then have "scheduleLoop q = q" by (rule scheduleLoop_stop)
  then show ?case by simp
next
  case (drop q r rest)
  have eq: "scheduleLoop q = scheduleLoop
      (q\<lparr>pending := rest, dedupe := AList.delete (key (heap q r)) (dedupe q)\<rparr>)"
    by (rule scheduleLoop_drop [OF drop(1,2,3)])
  from drop(2,3,4) show ?case unfolding eq by auto
next
  case (start q r rest)
  let ?q' = "q\<lparr>pending := rest,
       inflight := AList.update (jobId (heap q r)) r (inflight q),
       emitted := emitted q @ [(JobStarted r, length rest + length (AList.update (jobId (heap q r)) r (inflight q)))],
       running := running q @ [r]\<rparr>"
  have eq: "scheduleLoop q = scheduleLoop ?q'"
    by (rule scheduleLoop_start [OF start(1,2,3)])
  have "map_of (inflight ?q') (jobId (heap q r)) \<noteq> None"
    by (simp add: update_conv')
  then have "map_of (inflight (scheduleLoop ?q')) (jobId (heap q r)) \<noteq> None"
    using scheduleLoop_inflight_keys [of ?q' "jobId (heap q r)"] by blast
  with start(2,4) show ?case unfolding eq by auto
qed

lemma enqueue_beside_running:
  assumes e: "e < nextRef q" "map_of (dedupe q) (key job) = Some e"
    and fl: "map_of (inflight q) (jobId (heap q e)) \<noteq> None"
    and na: "\<not> signalAborted job"
  shows "map_of (inflight (enqueue job q)) (jobId (heap q e)) \<noteq> None
    \<and> heap (enqueue job q) e = heap q e
    \<and> heap (enqueue job q) (nextRef q) = job
    \<and> (nextRef q \<in> set (pending (enqueue job q))
        \<or> map_of (inflight (enqueue job q)) (jobId job) \<noteq> None)"
proof -
  let ?n = "nextRef q"
  define q5 where "q5 = emit QueueChanged
     ((sortPending (q\<lparr>heap := (heap q)(?n := job), nextRef := Suc ?n, pending := pending q @ [?n]\<rparr>))
        \<lparr>dedupe := AList.update (key job) ?n (dedupe q)\<rparr>)"
  from fl obtain y where y: "map_of (inflight q) (jobId (heap q e)) = Some y" by blast
  have ne: "e \<noteq> ?n" using e(1) by simp
  have en: "enqueue job q = schedule q5"
    using e(2) y ne by (simp add: enqueue_def q5_def Let_def sortPending_def)
  have f: "heap q5 = (heap q)(?n := job)" "inflight q5 = inflight q" "?n \<in> set (pending q5)"
    by (simp_all add: q5_def emit_def sortPending_def)
  have h: "heap (schedule q5) = heap q5"
    using schedule_frame [of q5] by blast
  have 1: "map_of (inflight (schedule q5)) (jobId (heap q e)) \<noteq> None"
    using scheduleLoop_inflight_keys [of q5 "jobId (heap q e)"] fl f(2)
    by (simp add: schedule_def emit_def)
  have 2: "?n \<in> set (pending (schedule q5))
      \<or> map_of (inflight (schedule q5)) (jobId job) \<noteq> None"
    using scheduleLoop_keeps_or_starts [of ?n q5] f(1,3) na
    by (auto simp add: schedule_def emit_def)
  show ?thesis
    unfolding en using 1 2 e(1) by (simp add: h f(1))
qed

subsection \<open>Running jobs and their entries in flight\<close>

text \<open>
  \<open>tracked\<close> is kept by every step of a run that is \<open>freshRun\<close>; it is shown
  for each update the steps are made of, then for the steps.
\<close>

lemma trackedI:
  assumes "\<And>r. r \<in> set (pending q) \<Longrightarrow> r < nextRef q \<and> r \<notin> set (running q)"
    and "\<And>r. r \<in> set (running q) \<Longrightarrow> r < nextRef q \<and> jobId (heap q r) \<in> fst ` set (inflight q)"
    and "\<And>r. r \<in> fst ` set (timers q) \<Longrightarrow>
          r < nextRef q \<and> r \<notin> set (running q) \<and> r \<notin> set (pending q)"
    and "\<And>r. r \<in> snd ` set (dedupe q) \<Longrightarrow> r < nextRef q"
    and "inj_on (\<lambda>r. jobId (heap q r)) {..<nextRef q}"
    and "distinct (pending q)" and "distinct (running q)"
  shows "tracked q"
  unfolding tracked_def using assms by blast

lemma trackedD:
  assumes "tracked q"
  shows "\<And>r. r \<in> set (pending q) \<Longrightarrow> r < nextRef q \<and> r \<notin> set (running q)"
    and "\<And>r. r \<in> set (running q) \<Longrightarrow> r < nextRef q \<and> jobId (heap q r) \<in> fst ` set (inflight q)"
    and "\<And>r. r \<in> fst ` set (timers q) \<Longrightarrow>
          r < nextRef q \<and> r \<notin> set (running q) \<and> r \<notin> set (pending q)"
    and "\<And>r. r \<in> snd ` set (dedupe q) \<Longrightarrow> r < nextRef q"
    and "inj_on (\<lambda>r. jobId (heap q r)) {..<nextRef q}"
    and "distinct (pending q)" and "distinct (running q)"
  using assms unfolding tracked_def by blast+

lemma tracked_start:
  assumes t: "tracked q" and p: "pending q = r # rest"
  shows "tracked (q\<lparr>pending := rest,
       inflight := AList.update (jobId (heap q r)) r (inflight q),
       emitted := em,
       running := running q @ [r]\<rparr>)"
  using t p unfolding tracked_def
  by (auto simp add: dom_update)

lemma snd_delete_subset: "snd ` set (AList.delete k al) \<subseteq> snd ` set al"
  by (auto simp add: AList.delete_eq)

lemma snd_update_subset: "snd ` set (AList.update k v al) \<subseteq> insert v (snd ` set al)"
  by (induction al) (auto simp add: AList.update.simps)

lemma tracked_drop:
  assumes t: "tracked q" and p: "pending q = r # rest"
  shows "tracked (q\<lparr>pending := rest, dedupe := AList.delete k (dedupe q)\<rparr>)"
  using t p unfolding tracked_def
  by (auto simp add: AList.delete_eq)

lemma scheduleLoop_tracked: "tracked q \<Longrightarrow> tracked (scheduleLoop q)"
proof (induction q rule: scheduleLoop_cases)
  case (stop q)
  then show ?case by (simp add: scheduleLoop_stop)
next
  case (drop q r rest)
  from drop(5) drop(2) have "tracked (q\<lparr>pending := rest, dedupe := AList.delete (key (heap q r)) (dedupe q)\<rparr>)"
    by (rule tracked_drop)
  then show ?case using drop(4) by (simp add: scheduleLoop_drop [OF drop(1,2,3)])
next
  case (start q r rest)
  from start(5) start(2) have "tracked (q\<lparr>pending := rest,
       inflight := AList.update (jobId (heap q r)) r (inflight q),
       emitted := emitted q @ [(JobStarted r, length rest + length (AList.update (jobId (heap q r)) r (inflight q)))],
       running := running q @ [r]\<rparr>)"
    by (rule tracked_start)
  then show ?case using start(4) by (simp add: scheduleLoop_start [OF start(1,2,3)])
qed

lemma tracked_emit [simp]: "tracked (emit ev q) = tracked q"
  by (simp add: tracked_def emit_def)

lemma schedule_tracked: "tracked q \<Longrightarrow> tracked (schedule q)"
  by (simp add: schedule_def scheduleLoop_tracked)

lemma tracked_cong:
  assumes "\<And>r. jobId (heap q' r) = jobId (heap q r)" "nextRef q' = nextRef q"
    "pending q' = pending q" "running q' = running q" "timers q' = timers q"
    "dedupe q' = dedupe q" "inflight q' = inflight q"
  shows "tracked q' = tracked q"
  unfolding tracked_def inj_on_def assms ..

lemma tracked_abort: "tracked (abort e q) = tracked q"
  by (rule tracked_cong) (simp_all add: abort_def)

lemma tracked_sortPending: "tracked (sortPending q) = tracked q"
  by (simp add: tracked_def sortPending_def)

lemma tracked_dropFromPending: "tracked q \<Longrightarrow> tracked (dropFromPending e q)"
  unfolding tracked_def dropFromPending_def by auto

lemma tracked_alloc:
  assumes "tracked q" "\<forall>r<nextRef q. jobId (heap q r) \<noteq> jobId job"
  shows "tracked (q\<lparr>heap := (heap q)(nextRef q := job), nextRef := Suc (nextRef q)\<rparr>)"
  using assms unfolding tracked_def
  by (auto simp add: inj_on_def less_Suc_eq)

lemma tracked_push:
  assumes "tracked q" "r < nextRef q" "r \<notin> set (pending q)" "r \<notin> set (running q)"
    "r \<notin> fst ` set (timers q)"
  shows "tracked (q\<lparr>pending := pending q @ [r]\<rparr>)"
  using assms unfolding tracked_def by auto

lemma tracked_dedupe_delete:
  assumes "tracked q"
  shows "tracked (q\<lparr>dedupe := AList.delete k (dedupe q)\<rparr>)"
  using assms unfolding tracked_def by (auto simp add: AList.delete_eq)

lemma tracked_dedupe_update:
  assumes "tracked q" "r < nextRef q"
  shows "tracked (q\<lparr>dedupe := AList.update k r (dedupe q)\<rparr>)"
proof -
  note d = trackedD [OF assms(1)]
  let ?q = "q\<lparr>dedupe := AList.update k r (dedupe q)\<rparr>"
  have f: "nextRef ?q = nextRef q" "running ?q = running q" "timers ?q = timers q"
    "pending ?q = pending q" "inflight ?q = inflight q" "heap ?q = heap q"
    "dedupe ?q = AList.update k r (dedupe q)"
    by simp_all
  show ?thesis
  proof (rule trackedI)
    fix x assume "x \<in> snd ` set (dedupe ?q)"
    then have "x = r \<or> x \<in> snd ` set (dedupe q)"
      unfolding f using snd_update_subset [of k r "dedupe q"] by blast
    with d(4) assms(2) show "x < nextRef ?q" unfolding f by blast
  qed (unfold f, (rule d; assumption)+)
qed

lemma fst_delete: "fst ` set (AList.delete k al) = fst ` set al - {k}"
  by (auto simp add: AList.delete_eq image_iff)

lemma tracked_inflight_delete:
  assumes "tracked q" "r < nextRef q" "r \<notin> set (running q)"
  shows "tracked (q\<lparr>inflight := AList.delete (jobId (heap q r)) (inflight q)\<rparr>)"
proof -
  note d = trackedD [OF assms(1)]
  have "jobId (heap q r') \<in> fst ` set (AList.delete (jobId (heap q r)) (inflight q))"
    if "r' \<in> set (running q)" for r'
  proof -
    from that d(2) have r': "r' < nextRef q" "jobId (heap q r') \<in> fst ` set (inflight q)" by blast+
    from that assms(3) have "r' \<noteq> r" by blast
    with d(5) r'(1) assms(2) have "jobId (heap q r') \<noteq> jobId (heap q r)"
      by (auto simp add: inj_on_def)
    with r'(2) show ?thesis by (simp add: fst_delete)
  qed
  then show ?thesis
    using assms(1) unfolding tracked_def by simp
qed

lemma tracked_fields [simp]:
  "tracked (q\<lparr>maxConcurrency := c\<rparr>) = tracked q"
  "tracked (q\<lparr>online := v\<rparr>) = tracked q"
  "tracked (q\<lparr>emitted := em\<rparr>) = tracked q"
  by (simp_all add: tracked_def)

lemma enqueue_tracked:
  assumes t: "tracked q" and fresh: "\<forall>r<nextRef q. jobId (heap q r) \<noteq> jobId job"
  shows "tracked (enqueue job q)"
proof -
  let ?n = "nextRef q"
  let ?q0 = "q\<lparr>heap := (heap q)(?n := job), nextRef := Suc ?n\<rparr>"
  define q1 where "q1 = (case map_of (dedupe ?q0) (key job) of
                  None \<Rightarrow> ?q0
                | Some existing \<Rightarrow>
                    if map_of (inflight ?q0) (jobId (heap ?q0 existing)) = None
                    then dropFromPending existing (abort existing ?q0)
                    else ?q0)"
  note d = trackedD [OF t]
  have t0: "tracked ?q0" using t fresh by (rule tracked_alloc)
  have t1: "tracked q1"
    unfolding q1_def using t0
    by (auto simp add: tracked_dropFromPending tracked_abort split: option.splits)
  have f1: "nextRef q1 = Suc ?n" "running q1 = running q" "timers q1 = timers q"
    "set (pending q1) \<subseteq> set (pending q)"
    unfolding q1_def
    by (auto simp add: dropFromPending_def abort_def split: option.splits)
  have n: "?n \<notin> set (pending q1)" "?n \<notin> set (running q1)" "?n \<notin> fst ` set (timers q1)"
    "?n < nextRef q1"
    using d(1) [of ?n] d(2) [of ?n] d(3) [of ?n] f1 by auto
  have t2: "tracked (q1\<lparr>pending := pending q1 @ [?n]\<rparr>)"
    using t1 n(4,1,2,3) by (rule tracked_push)
  then have t3: "tracked (sortPending (q1\<lparr>pending := pending q1 @ [?n]\<rparr>))"
    by (simp only: tracked_sortPending)
  let ?q3 = "sortPending (q1\<lparr>pending := pending q1 @ [?n]\<rparr>)"
  have "?n < nextRef ?q3" using n(4) by (simp add: sortPending_def)
  with t3 have t4: "tracked (?q3\<lparr>dedupe := AList.update (key job) ?n (dedupe ?q3)\<rparr>)"
    by (rule tracked_dedupe_update)
  have "enqueue job q = schedule (emit QueueChanged
      (?q3\<lparr>dedupe := AList.update (key job) ?n (dedupe ?q3)\<rparr>))"
    by (simp add: enqueue_def q1_def Let_def)
  then show ?thesis using t4 by (simp add: schedule_tracked)
qed

lemma cancelByKey_tracked:
  assumes t: "tracked q"
    and guard: "\<And>e. map_of (dedupe q) k = Some e \<Longrightarrow> e \<notin> set (running q)"
  shows "tracked (cancelByKey k q)"
proof (cases "map_of (dedupe q) k")
  case None
  then show ?thesis using t by (simp add: cancelByKey_def)
next
  case (Some e)
  note d = trackedD [OF t]
  from Some have "(k, e) \<in> set (dedupe q)" by (rule map_of_SomeD)
  then have "e \<in> snd ` set (dedupe q)" by force
  then have e: "e < nextRef q" by (rule d(4))
  let ?q1 = "dropFromPending e (abort e q)"
  have t1: "tracked ?q1" using t by (simp add: tracked_dropFromPending tracked_abort)
  have f1: "nextRef ?q1 = nextRef q" "running ?q1 = running q"
    by (simp_all add: dropFromPending_def abort_def)
  have "tracked (?q1\<lparr>inflight := AList.delete (jobId (heap ?q1 e)) (inflight ?q1)\<rparr>)"
    using t1 e guard [OF Some] unfolding f1 [symmetric] by (rule tracked_inflight_delete)
  then have "tracked ((?q1\<lparr>inflight := AList.delete (jobId (heap ?q1 e)) (inflight ?q1)\<rparr>)
      \<lparr>dedupe := AList.delete k (dedupe (?q1\<lparr>inflight := AList.delete (jobId (heap ?q1 e)) (inflight ?q1)\<rparr>))\<rparr>)"
    by (rule tracked_dedupe_delete)
  then show ?thesis
    using Some by (simp add: cancelByKey_def Let_def)
qed

lemma executeFinally_tracked:
  assumes "tracked q" "r < nextRef q" "r \<notin> set (running q)"
  shows "tracked (executeFinally r q)"
proof -
  have "tracked (q\<lparr>inflight := AList.delete (jobId (heap q r)) (inflight q)\<rparr>)"
    using assms by (rule tracked_inflight_delete)
  then show ?thesis by (simp add: executeFinally_def schedule_tracked)
qed

lemma tracked_settle:
  assumes t: "tracked q" and r: "r \<in> set (running q)"
  shows "tracked (q\<lparr>running := remove1 r (running q)\<rparr>)"
    and "r \<notin> set (remove1 r (running q))" and "r < nextRef q"
    and "r \<notin> set (pending q)" and "r \<notin> fst ` set (timers q)"
proof -
  note d = trackedD [OF t]
  show "r \<notin> set (remove1 r (running q))" using d(7) by simp
  show "r < nextRef q" using d(2) r by blast
  show "r \<notin> set (pending q)" using d(1) r by blast
  show "r \<notin> fst ` set (timers q)" using d(3) r by blast
  have s: "set (remove1 r (running q)) \<subseteq> set (running q)" by (rule set_remove1_subset)
  let ?q = "q\<lparr>running := remove1 r (running q)\<rparr>"
  have f: "nextRef ?q = nextRef q" "running ?q = remove1 r (running q)" "timers ?q = timers q"
    "pending ?q = pending q" "inflight ?q = inflight q" "heap ?q = heap q"
    "dedupe ?q = dedupe q"
    by simp_all
  show "tracked ?q"
  proof (rule trackedI)
    fix x assume "x \<in> set (pending ?q)"
    then have "x < nextRef q \<and> x \<notin> set (running q)" unfolding f by (rule d(1))
    with s show "x < nextRef ?q \<and> x \<notin> set (running ?q)" unfolding f by blast
  next
    fix x assume "x \<in> set (running ?q)"
    with s have "x \<in> set (running q)" unfolding f by blast
    then show "x < nextRef ?q \<and> jobId (heap ?q x) \<in> fst ` set (inflight ?q)"
      unfolding f by (rule d(2))
  next
    fix x assume "x \<in> fst ` set (timers ?q)"
    then have "x < nextRef q \<and> x \<notin> set (running q) \<and> x \<notin> set (pending q)"
      unfolding f by (rule d(3))
    with s show "x < nextRef ?q \<and> x \<notin> set (running ?q) \<and> x \<notin> set (pending ?q)"
      unfolding f by blast
  next
    fix x assume "x \<in> snd ` set (dedupe ?q)"
    then show "x < nextRef ?q" unfolding f by (rule d(4))
  next
    show "inj_on (\<lambda>r. jobId (heap ?q r)) {..<nextRef ?q}" unfolding f by (rule d(5))
    show "distinct (pending ?q)" unfolding f by (rule d(6))
    show "distinct (running ?q)" unfolding f using d(7) by (rule distinct_remove1)
  qed
qed

lemma tracked_timer_add:
  assumes t: "tracked q" and r: "r < nextRef q" "r \<notin> set (running q)" "r \<notin> set (pending q)"
  shows "tracked (q\<lparr>timers := timers q @ [(r, d)]\<rparr>)"
  using assms unfolding tracked_def by auto

lemma tracked_timer_delete:
  assumes t: "tracked q"
  shows "tracked (q\<lparr>timers := AList.delete r (timers q)\<rparr>)"
  using assms unfolding tracked_def by (auto simp add: AList.delete_eq)

text \<open>In a tracked queue the running jobs have pairwise different entries in \<open>inflight\<close>.\<close>

lemma tracked_running_length:
  assumes t: "tracked q"
  shows "length (running q) \<le> length (inflight q)"
proof -
  note d = trackedD [OF t]
  let ?f = "\<lambda>r. jobId (heap q r)"
  have "set (running q) \<subseteq> {..<nextRef q}" using d(2) by auto
  with d(5) have "inj_on ?f (set (running q))" by (rule inj_on_subset)
  then have "card (?f ` set (running q)) = card (set (running q))" by (rule card_image)
  moreover have "card (set (running q)) = length (running q)"
    using d(7) by (rule distinct_card)
  moreover have "?f ` set (running q) \<subseteq> fst ` set (inflight q)" using d(2) by blast
  then have "card (?f ` set (running q)) \<le> card (fst ` set (inflight q))"
    by (intro card_mono) simp_all
  moreover have "card (fst ` set (inflight q)) \<le> card (set (inflight q))"
    by (intro card_image_le) simp
  moreover have "card (set (inflight q)) \<le> length (inflight q)" by (rule card_length)
  ultimately show ?thesis by linarith
qed

lemma resolved_tracked:
  assumes t: "tracked q" and r: "r \<in> set (running q)"
  shows "tracked (executeResolved r (q\<lparr>running := remove1 r (running q)\<rparr>))"
proof -
  let ?q = "q\<lparr>running := remove1 r (running q)\<rparr>"
  note s = tracked_settle [OF t r]
  let ?q2 = "(emit (JobCompleted r) ?q)\<lparr>dedupe := AList.delete (key (heap ?q r)) (dedupe ?q)\<rparr>"
  have "tracked ((emit (JobCompleted r) ?q)\<lparr>dedupe :=
      AList.delete (key (heap ?q r)) (dedupe (emit (JobCompleted r) ?q))\<rparr>)"
    by (rule tracked_dedupe_delete) (simp add: s(1))
  then have t2: "tracked ?q2" by (simp add: emit_def)
  have "r < nextRef ?q2" "r \<notin> set (running ?q2)"
    using s(2,3) by (simp_all add: emit_def)
  with t2 have "tracked (executeFinally r ?q2)" by (rule executeFinally_tracked)
  then show ?thesis by (simp add: executeResolved_def Let_def emit_def)
qed

lemma rejected_tracked:
  assumes t: "tracked q" and r: "r \<in> set (running q)"
  shows "tracked (executeRejected r (q\<lparr>running := remove1 r (running q)\<rparr>))"
proof -
  let ?q = "q\<lparr>running := remove1 r (running q)\<rparr>"
  note s = tracked_settle [OF t r]
  have fin: "tracked (executeFinally r q2)"
    if "tracked q2" "nextRef q2 = nextRef q" "running q2 = running ?q" for q2
    using that s(2,3) by (intro executeFinally_tracked) simp_all
  have del: "tracked ((emit ev ?q)\<lparr>dedupe := AList.delete k (dedupe (emit ev ?q))\<rparr>)" for ev k
    by (rule tracked_dedupe_delete) (simp add: s(1))
  consider (aborted) "signalAborted (heap ?q r)"
    | (retry) "\<not> signalAborted (heap ?q r)" "of_nat (retries (heap ?q r)) < maxRetries (heap ?q r)"
    | (failed) "\<not> signalAborted (heap ?q r)" "\<not> of_nat (retries (heap ?q r)) < maxRetries (heap ?q r)"
    by blast
  then show ?thesis
  proof cases
    case aborted
    have "tracked (executeFinally r ((emit (JobCancelled r) ?q)\<lparr>dedupe :=
        AList.delete (key (heap ?q r)) (dedupe (emit (JobCancelled r) ?q))\<rparr>))"
      by (rule fin [OF del]) (simp_all add: emit_def)
    then show ?thesis using aborted by (simp add: executeRejected_def Let_def emit_def)
  next
    case failed
    have "tracked (executeFinally r ((emit (JobFailed r) ?q)\<lparr>dedupe :=
        AList.delete (key (heap ?q r)) (dedupe (emit (JobFailed r) ?q))\<rparr>))"
      by (rule fin [OF del]) (simp_all add: emit_def)
    then show ?thesis using failed by (simp add: executeRejected_def Let_def emit_def)
  next
    case retry
    let ?q1 = "?q\<lparr>heap := (heap ?q)(r := (heap ?q r)\<lparr>retries := retries (heap ?q r) + 1\<rparr>)\<rparr>"
    have "tracked ?q1 = tracked ?q" by (rule tracked_cong) simp_all
    then have t1: "tracked ?q1" using s(1) by simp
    have "tracked (?q1\<lparr>timers := timers ?q1 @ [(r, d)]\<rparr>)" for d
      using t1 s(2,3,4) by (intro tracked_timer_add) simp_all
    then have "tracked (emit (JobRetry r) (?q1\<lparr>timers := timers ?q1 @ [(r, d)]\<rparr>))" for d
      by simp
    then have "tracked (executeFinally r (emit (JobRetry r) (?q1\<lparr>timers := timers ?q1 @ [(r, d)]\<rparr>)))" for d
      by (rule fin) (simp_all add: emit_def)
    then show ?thesis using retry by (simp add: executeRejected_def Let_def)
  qed
qed

lemma timer_tracked:
  assumes t: "tracked q" and r: "map_of (timers q) r \<noteq> None"
  shows "tracked (retryTimerFired r (q\<lparr>timers := AList.delete r (timers q)\<rparr>))"
proof -
  note d = trackedD [OF t]
  from r have "r \<in> fst ` set (timers q)" by (simp add: map_of_eq_None_iff)
  then have r': "r < nextRef q" "r \<notin> set (running q)" "r \<notin> set (pending q)"
    using d(3) by blast+
  let ?q = "q\<lparr>timers := AList.delete r (timers q)\<rparr>"
  have t0: "tracked ?q" using t by (rule tracked_timer_delete)
  have "tracked (?q\<lparr>inflight := AList.delete (jobId (heap ?q r)) (inflight ?q)\<rparr>)"
    using t0 r'(1,2) by (intro tracked_inflight_delete) simp_all
  moreover let ?q1 = "?q\<lparr>inflight := AList.delete (jobId (heap ?q r)) (inflight ?q)\<rparr>"
  have "r \<notin> fst ` set (timers ?q1)" by (simp add: fst_delete)
  ultimately have "tracked (?q1\<lparr>pending := pending ?q1 @ [r]\<rparr>)"
    using r' by (intro tracked_push) simp_all
  then have "tracked (schedule (sortPending (?q1\<lparr>pending := pending ?q1 @ [r]\<rparr>)))"
    by (simp add: schedule_tracked tracked_sortPending)
  then show ?thesis by (simp add: retryTimerFired_def Let_def)
qed

lemma step_tracked:
  assumes t: "tracked q"
    and g: "case a of
         Enqueue job \<Rightarrow> jobId job \<notin> set (map (\<lambda>r. jobId (heap q r)) [0..<nextRef q])
       | CancelByKey k \<Rightarrow>
           (case map_of (dedupe q) k of None \<Rightarrow> True | Some e \<Rightarrow> e \<notin> set (running q))
       | _ \<Rightarrow> True"
  shows "tracked (step a q)"
proof (cases a)
  case (Enqueue job)
  with g have "\<forall>r<nextRef q. jobId (heap q r) \<noteq> jobId job"
    by (force simp add: image_iff)
  with t show ?thesis unfolding Enqueue step.simps by (rule enqueue_tracked)
next
  case (CancelByKey k)
  with g have "\<And>e. map_of (dedupe q) k = Some e \<Longrightarrow> e \<notin> set (running q)" by simp
  with t show ?thesis unfolding CancelByKey step.simps by (rule cancelByKey_tracked)
next
  case (UpdateConcurrency n)
  then show ?thesis using t by (simp add: updateConcurrency_def schedule_tracked)
next
  case (SetOnline v)
  then show ?thesis using t by (simp add: setOnline_def Let_def schedule_tracked)
next
  case (RunResolved r)
  then show ?thesis using t resolved_tracked [OF t, of r] by simp
next
  case (RunRejected r)
  then show ?thesis using t rejected_tracked [OF t, of r] by simp
next
  case (TimerFired r)
  then show ?thesis using t timer_tracked [OF t, of r] by simp
qed

lemma steps_tracked:
  "tracked q \<Longrightarrow> freshRun as q \<Longrightarrow> tracked (steps as q)"
proof (induction as arbitrary: q)
  case Nil
  then show ?case by simp
next
  case (Cons a as)
  from Cons.prems have "tracked (step a q)" by (intro step_tracked) simp_all
  with Cons show ?case by simp
qed

lemma tracked_newQueue: "tracked (newQueue c)"
  by (simp add: tracked_def newQueue_def)

text \<open>The loop removes no running job and no entry of \<open>inflight\<close>.\<close>

lemma length_le_update: "length al \<le> length (AList.update k v al)"
  by (induction al) (auto simp add: AList.update.simps)

lemma scheduleLoop_keeps:
  "(\<exists>more. running (scheduleLoop q) = running q @ more)
   \<and> length (inflight q) \<le> length (inflight (scheduleLoop q))
   \<and> fst ` set (inflight q) \<subseteq> fst ` set (inflight (scheduleLoop q))"
proof (induction q rule: scheduleLoop_cases)
  case (stop q)
  then show ?case by (simp add: scheduleLoop_stop)
next
  case (drop q r rest)
  then show ?case by (simp add: scheduleLoop_drop [OF drop(1,2,3)])
next
  case (start q r rest)
  have "length (inflight q) \<le> length (AList.update (jobId (heap q r)) r (inflight q))"
    by (rule length_le_update)
  moreover have "fst ` set (inflight q) \<subseteq> fst ` set (AList.update (jobId (heap q r)) r (inflight q))"
    by (auto simp add: dom_update)
  ultimately show ?case
    using start(4) unfolding scheduleLoop_start [OF start(1,2,3)]
    by (auto simp del: AList.update.simps)
qed

lemma updateConcurrency_keeps:
  "(\<exists>more. running (updateConcurrency n q) = running q @ more)
   \<and> length (inflight q) \<le> length (inflight (updateConcurrency n q))
   \<and> fst ` set (inflight q) \<subseteq> fst ` set (inflight (updateConcurrency n q))"
  using scheduleLoop_keeps [of "q\<lparr>maxConcurrency := max 1 n\<rparr>"]
  by (simp add: updateConcurrency_def schedule_def emit_def)


subsection \<open>Evaluating runs of the queue\<close>

lemmas queue_eval = step.simps steps.simps enqueue_def setOnline_def updateConcurrency_def
  cancelByKey_def executeResolved_def executeRejected_def executeFinally_def retryTimerFired_def
  schedule_def scheduleLoop.simps emit_def snapshotTotal_def sortPending_def dropFromPending_def
  abort_def newQueue_def exampleJob_def blankJob_def Let_def AList.update.simps AList.delete_eq

subsection \<open>The retry delay\<close>

text \<open>
  C5, as the claim states it, fails: the first retry of a job waits 1000 ms,
  not 500 ms. Here a job is enqueued in a new queue, starts, and its action
  rejects once.
\<close>

theorem first_retry_delay_counterexample:
  "timers (steps [Enqueue (exampleJob ''a'' ''A'' high), RunRejected 0] (newQueue 3)) = [(0, 1000)]
   \<and> (1000 :: int) \<noteq> min 30000 (500 * 2 ^ (1 - 1))"
  by (simp add: queue_eval)

text \<open>
  C5, amended. When the action of a running job rejects, the signal is not
  aborted and retries remain, the retry counter is incremented to \<open>k\<close> and
  the timer of the \<open>k\<close>-th retry is set to \<open>min(30000, 500 * 2^k)\<close>
  milliseconds: 1000, 2000, 4000, 8000, 16000, then 30000.
\<close>

theorem retry_backoff_delay:
  assumes "r \<in> set (running q)" and "\<not> signalAborted (heap q r)"
    and "of_nat (retries (heap q r)) < maxRetries (heap q r)"
    and "k = retries (heap q r) + 1"
  shows "retries (heap (step (RunRejected r) q) r) = k
    \<and> timers (step (RunRejected r) q) = timers q @ [(r, min 30000 (500 * 2 ^ k))]"
  using assms schedule_frame
  by (simp add: executeRejected_def executeFinally_def Let_def emit_def)

theorem retry_backoff_delay_witness:
  "retries (heap (steps [Enqueue (exampleJob ''a'' ''A'' high), RunRejected 0, TimerFired 0,
       RunRejected 0] (newQueue 3)) 0) = 2
   \<and> timers (steps [Enqueue (exampleJob ''a'' ''A'' high), RunRejected 0, TimerFired 0,
       RunRejected 0] (newQueue 3)) = [(0, 2000)]"
proof -
  let ?q = "steps [Enqueue (exampleJob ''a'' ''A'' high), RunRejected 0, TimerFired 0] (newQueue 3)"
  have 1: "0 \<in> set (running ?q)" by (simp add: queue_eval)
  have 2: "\<not> signalAborted (heap ?q 0)" by (simp add: queue_eval)
  have 3: "of_nat (retries (heap ?q 0)) < maxRetries (heap ?q 0)" by (simp add: queue_eval)
  have 4: "2 = retries (heap ?q 0) + 1" by (simp add: queue_eval)
  have 5: "timers ?q = []" by (simp add: queue_eval)
  have 6: "steps [Enqueue (exampleJob ''a'' ''A'' high), RunRejected 0, TimerFired 0,
       RunRejected 0] (newQueue 3) = step (RunRejected 0) ?q" by simp
  show ?thesis
    unfolding 6 using retry_backoff_delay [OF 1 2 3 4] 5 by simp
qed

subsection \<open>The concurrency bound\<close>

text \<open>
  C3, as the claim states it, fails, in four ways. Three jobs run under the
  bound 3 of the engine's queue, and \<open>updateConcurrency(1)\<close> leaves 3 jobs
  in flight under a bound of 1. Under a bound of 2.5, which the configuration
  lets through, a third job starts, since 2 is below 2.5. After
  \<open>cancelByKey\<close> on a running job the job is out of \<open>inflight\<close> while its
  action still runs, and a second action starts under bound 1. And a job with
  the identifier of a job in flight takes over its entry of \<open>inflight\<close>, so
  three actions run under bound 2.
\<close>

theorem bound_counterexample:
  "length (inflight (steps loweredRun (newQueue 3))) = 3
   \<and> maxConcurrency (steps loweredRun (newQueue 3)) = 1
   \<and> length (inflight (steps fractionalRun (newQueue 3))) = 3
   \<and> maxConcurrency (steps fractionalRun (newQueue 3)) = 5 / 2
   \<and> respectsRunning fractionalRun (newQueue 3)
   \<and> running (steps cancelledRun (newQueue 1)) = [0, 1]
   \<and> maxConcurrency (steps cancelledRun (newQueue 1)) = 1
   \<and> respectsRunning cancelledRun (newQueue 1)
   \<and> running (steps sameIdRun (newQueue 2)) = [0, 1, 2]
   \<and> maxConcurrency (steps sameIdRun (newQueue 2)) = 2
   \<and> respectsRunning sameIdRun (newQueue 2)"
  by (simp add: loweredRun_def fractionalRun_def cancelledRun_def sameIdRun_def queue_eval)

text \<open>
  C3, amended. A job is started only while the number of jobs in flight is
  below the bound, so no step takes that number above the larger of its value
  before the step and the bound after it, rounded up. Hence, from a state
  within the rounded bound, every run in which \<open>updateConcurrency\<close> never
  sets the rounded bound below the number of jobs then in flight ends within
  the rounded bound, and within the bound itself when the bound is a whole
  number. From a new queue, if moreover every job enqueued has an identifier
  of its own and \<open>cancelByKey\<close> is not used on a running job, every job
  whose action is running is in flight, so the running actions are within the
  same bound. \<open>updateConcurrency\<close> never preempts: the jobs running before
  it are still running after it, and no entry leaves \<open>inflight\<close>.
\<close>

theorem running_within_bound:
  "int (length (inflight (step a q)))
      \<le> max (int (length (inflight q))) \<lceil>maxConcurrency (step a q)\<rceil>
   \<and> (int (length (inflight q)) \<le> \<lceil>maxConcurrency q\<rceil> \<and> respectsRunning as q
        \<longrightarrow> int (length (inflight (steps as q))) \<le> \<lceil>maxConcurrency (steps as q)\<rceil>
          \<and> (maxConcurrency (steps as q) \<in> \<int>
                \<longrightarrow> of_nat (length (inflight (steps as q))) \<le> maxConcurrency (steps as q)))
   \<and> (0 \<le> c \<and> respectsRunning as (newQueue c) \<and> freshRun as (newQueue c)
        \<longrightarrow> length (running (steps as (newQueue c))) \<le> length (inflight (steps as (newQueue c)))
          \<and> int (length (running (steps as (newQueue c))))
                \<le> \<lceil>maxConcurrency (steps as (newQueue c))\<rceil>)
   \<and> (\<exists>more. running (step (UpdateConcurrency n) q) = running q @ more)
   \<and> length (inflight q) \<le> length (inflight (step (UpdateConcurrency n) q))
   \<and> fst ` set (inflight q) \<subseteq> fst ` set (inflight (step (UpdateConcurrency n) q))"
proof (intro conjI impI)
  show "int (length (inflight (step a q)))
      \<le> max (int (length (inflight q))) \<lceil>maxConcurrency (step a q)\<rceil>"
    by (rule step_inflight_bound)
next
  assume h: "int (length (inflight q)) \<le> \<lceil>maxConcurrency q\<rceil> \<and> respectsRunning as q"
  then show b: "int (length (inflight (steps as q))) \<le> \<lceil>maxConcurrency (steps as q)\<rceil>"
    using steps_bound [of q as] by blast
  assume "maxConcurrency (steps as q) \<in> \<int>"
  then obtain z where z: "maxConcurrency (steps as q) = of_int z" by (auto elim: Ints_cases)
  from b have "int (length (inflight (steps as q))) \<le> z" unfolding z by simp
  then have "(of_int (int (length (inflight (steps as q)))) :: rat) \<le> of_int z"
    by (simp only: of_int_le_iff)
  then show "of_nat (length (inflight (steps as q))) \<le> maxConcurrency (steps as q)"
    unfolding z by simp
next
  assume h: "0 \<le> c \<and> respectsRunning as (newQueue c) \<and> freshRun as (newQueue c)"
  then have "tracked (steps as (newQueue c))"
    using steps_tracked [OF tracked_newQueue, of as c] by blast
  then show l: "length (running (steps as (newQueue c))) \<le> length (inflight (steps as (newQueue c)))"
    by (rule tracked_running_length)
  have "int (length (inflight (newQueue c))) \<le> \<lceil>maxConcurrency (newQueue c)\<rceil>"
    using h by (simp add: newQueue_def)
  with h have "int (length (inflight (steps as (newQueue c))))
      \<le> \<lceil>maxConcurrency (steps as (newQueue c))\<rceil>"
    using steps_bound [of "newQueue c" as] by blast
  with l show "int (length (running (steps as (newQueue c))))
      \<le> \<lceil>maxConcurrency (steps as (newQueue c))\<rceil>"
    by linarith
next
  show "\<exists>more. running (step (UpdateConcurrency n) q) = running q @ more"
    "length (inflight q) \<le> length (inflight (step (UpdateConcurrency n) q))"
    "fst ` set (inflight q) \<subseteq> fst ` set (inflight (step (UpdateConcurrency n) q))"
    using updateConcurrency_keeps [of n q] by simp_all
qed

theorem running_within_bound_witness:
  "respectsRunning raisedRun (newQueue 2) \<and> freshRun raisedRun (newQueue 2)
   \<and> length (running (steps raisedRun (newQueue 2))) \<le> length (inflight (steps raisedRun (newQueue 2)))
   \<and> int (length (inflight (steps raisedRun (newQueue 2))))
        \<le> \<lceil>maxConcurrency (steps raisedRun (newQueue 2))\<rceil>
   \<and> of_nat (length (inflight (steps raisedRun (newQueue 2))))
        \<le> maxConcurrency (steps raisedRun (newQueue 2))
   \<and> maxConcurrency (steps raisedRun (newQueue 2)) = 2
   \<and> running (steps raisedRun (newQueue 2)) = [1, 2]"
proof -
  have 1: "int (length (inflight (newQueue 2))) \<le> \<lceil>maxConcurrency (newQueue 2)\<rceil>"
    by (simp add: newQueue_def)
  have 2: "respectsRunning raisedRun (newQueue 2)"
    by (simp add: raisedRun_def queue_eval)
  have 3: "maxConcurrency (steps raisedRun (newQueue 2)) = 2"
    by (simp add: raisedRun_def queue_eval)
  have 4: "freshRun raisedRun (newQueue 2)"
    by (simp add: raisedRun_def queue_eval)
  have 5: "running (steps raisedRun (newQueue 2)) = [1, 2]"
    by (simp add: raisedRun_def queue_eval)
  have 6: "maxConcurrency (steps raisedRun (newQueue 2)) \<in> \<int>"
    unfolding 3 by simp
  have 7: "(0::rat) \<le> 2" by simp
  note t = running_within_bound [of "Enqueue blankJob" "newQueue 2" raisedRun 2 1]
  from t 1 2 have a: "int (length (inflight (steps raisedRun (newQueue 2))))
        \<le> \<lceil>maxConcurrency (steps raisedRun (newQueue 2))\<rceil>" by blast
  from t 1 2 6 have b: "of_nat (length (inflight (steps raisedRun (newQueue 2))))
        \<le> maxConcurrency (steps raisedRun (newQueue 2))" by blast
  from t 7 2 4 have c: "length (running (steps raisedRun (newQueue 2)))
        \<le> length (inflight (steps raisedRun (newQueue 2)))" by blast
  from a b c 2 3 4 5 show ?thesis by blast
qed

subsection \<open>Jobs of one dedup key\<close>

text \<open>
  C4, as the claim states it, fails: in a queue of bound 1 a job of key \<open>K\<close>
  is running when a second job of key \<open>K\<close> is enqueued; the first stays in
  flight, the second is pending, and two outstanding jobs have the key.
\<close>

theorem same_key_outstanding_counterexample:
  "map (key \<circ> heap (steps [Enqueue (exampleJob ''a'' ''K'' high),
         Enqueue (exampleJob ''b'' ''K'' high)] (newQueue 1)))
       (outstanding (steps [Enqueue (exampleJob ''a'' ''K'' high),
         Enqueue (exampleJob ''b'' ''K'' high)] (newQueue 1))) = [''K'', ''K'']"
  by (simp add: outstanding_def queue_eval)

text \<open>
  C4, amended. \<open>enqueue\<close> keeps at most one not-yet-started job for each
  dedup key: if every pending job is the dedup entry of its key and is not in
  flight, the same holds after a job with a fresh identifier is enqueued, and
  the keys of the pending jobs are pairwise different. A job in flight is
  never removed: when the dedup entry of the new job's key is in flight, it
  stays in flight unchanged and the new job is added beside it, pending or
  started.
\<close>

theorem enqueue_one_pending_per_key:
  assumes "pendingKeyed q"
    and "jobId job \<notin> (\<lambda>r. jobId (heap q r)) ` set (pending q)"
    and "map_of (inflight q) (jobId job) = None"
  shows "pendingKeyed (enqueue job q)
    \<and> distinct (map (\<lambda>r. key (heap (enqueue job q) r)) (pending (enqueue job q)))
    \<and> (\<forall>e. e < nextRef q \<and> map_of (dedupe q) (key job) = Some e
           \<and> map_of (inflight q) (jobId (heap q e)) \<noteq> None \<and> \<not> signalAborted job
         \<longrightarrow> map_of (inflight (enqueue job q)) (jobId (heap q e)) \<noteq> None
           \<and> heap (enqueue job q) e = heap q e
           \<and> heap (enqueue job q) (nextRef q) = job
           \<and> (nextRef q \<in> set (pending (enqueue job q))
               \<or> map_of (inflight (enqueue job q)) (jobId job) \<noteq> None))"
proof -
  have pk: "pendingKeyed (enqueue job q)"
    using assms by (rule enqueue_pendingKeyed)
  then have "distinct (map (\<lambda>r. key (heap (enqueue job q) r)) (pending (enqueue job q)))"
    by (rule pendingKeyed_keys_distinct)
  with pk show ?thesis
    using enqueue_beside_running [of _ q job] by blast
qed

theorem enqueue_one_pending_per_key_witness:
  "pendingKeyed onePending
   \<and> pending onePending = [0]
   \<and> pendingKeyed (enqueue (exampleJob ''b'' ''K'' high) onePending)
   \<and> pending (enqueue (exampleJob ''b'' ''K'' high) onePending) = [1]"
proof -
  have 1: "pendingKeyed onePending"
    by (simp add: onePending_def pendingKeyed_def queue_eval)
  have 2: "jobId (exampleJob ''b'' ''K'' high) \<notin> (\<lambda>r. jobId (heap onePending r)) ` set (pending onePending)"
    by (simp add: onePending_def queue_eval)
  have 3: "map_of (inflight onePending) (jobId (exampleJob ''b'' ''K'' high)) = None"
    by (simp add: onePending_def queue_eval)
  have 4: "pending onePending = [0]"
    "pending (enqueue (exampleJob ''b'' ''K'' high) onePending) = [1]"
    by (simp_all add: onePending_def queue_eval)
  show ?thesis
    using enqueue_one_pending_per_key [OF 1 2 3] 1 4 by blast
qed

text \<open>
  C2. The claim holds while the dedup map still names the earlier job, and
  the code tries to make it hold, but misses a case: \<open>execute\<close> deletes the
  dedup entry of the key of the job that settles, even when the entry by then
  names another job. In \<open>staleEntryRun\<close> the jobs \<open>A\<close> (reference 2) and
  \<open>B\<close> (reference 3) have the same key and are both enqueued before either
  starts: when \<open>B\<close> is enqueued, only \<open>Z\<close> and \<open>H\<close> have started and \<open>A\<close>
  is pending. \<open>A\<close> is not aborted and stays pending beside \<open>B\<close>, and both
  reach \<open>jobCompleted\<close>.
\<close>

theorem stale_dedupe_entry_both_complete:
  "startedRefs (emitted (steps beforeB (newQueue 1))) = [0, 1]
   \<and> pending (steps beforeB (newQueue 1)) = [2]
   \<and> map_of (dedupe (steps beforeB (newQueue 1))) ''K'' = None
   \<and> pending (step (Enqueue (exampleJob ''b'' ''K'' high)) (steps beforeB (newQueue 1))) = [2, 3]
   \<and> key (heap (steps staleEntryRun (newQueue 1)) 2) = ''K''
   \<and> key (heap (steps staleEntryRun (newQueue 1)) 3) = ''K''
   \<and> \<not> signalAborted (heap (steps staleEntryRun (newQueue 1)) 2)
   \<and> completedRefs (emitted (steps staleEntryRun (newQueue 1))) = [0, 1, 2, 3]"
  by (simp add: staleEntryRun_def beforeB_def queue_eval)

section \<open>Properties of the path filter\<close>

lemmas filter_eval = matchesPattern_def escaped_def escapeSpecial_def replaceStar_def
  syncFileJob_def isPathInsideRoot_def rootPrefix_def relativeTo_def joinPosix_def
  exampleTarget_def createUploadJob_def createDownloadJob_def Let_def

text \<open>A run of \<open>[^/]*\<close> takes a stem without a slash; plain characters match themselves.\<close>

lemma matchItems_star:
  "matchItems ((NonSlash, Star) # items) s \<longleftrightarrow>
   (\<exists>stem rest. s = stem @ rest \<and> CHR ''/'' \<notin> set stem \<and> matchItems items rest)"
proof (induction s)
  case Nil
  then show ?case by simp
next
  case (Cons c cs)
  show ?case
  proof
    assume "matchItems ((NonSlash, Star) # items) (c # cs)"
    then consider "matchItems items (c # cs)"
      | "c \<noteq> CHR ''/''" "matchItems ((NonSlash, Star) # items) cs"
      by auto
    then show "\<exists>stem rest. c # cs = stem @ rest \<and> CHR ''/'' \<notin> set stem \<and> matchItems items rest"
    proof cases
      case 1
      then have "c # cs = [] @ (c # cs) \<and> CHR ''/'' \<notin> set [] \<and> matchItems items (c # cs)"
        by simp
      then show ?thesis by blast
    next
      case 2
      with Cons.IH obtain stem rest where
        "cs = stem @ rest" "CHR ''/'' \<notin> set stem" "matchItems items rest" by blast
      with 2(1) have "c # cs = (c # stem) @ rest \<and> CHR ''/'' \<notin> set (c # stem)
          \<and> matchItems items rest" by auto
      then show ?thesis by blast
    qed
  next
    assume "\<exists>stem rest. c # cs = stem @ rest \<and> CHR ''/'' \<notin> set stem \<and> matchItems items rest"
    then obtain stem rest where
      s: "c # cs = stem @ rest" "CHR ''/'' \<notin> set stem" "matchItems items rest" by blast
    show "matchItems ((NonSlash, Star) # items) (c # cs)"
    proof (cases stem)
      case Nil
      with s have "matchItems items (c # cs)" by simp
      then show ?thesis by simp
    next
      case (Cons d stem')
      with s have "c = d" "cs = stem' @ rest" "d \<noteq> CHR ''/''" "CHR ''/'' \<notin> set stem'"
        by auto
      with s(3) Cons.IH show ?thesis by auto
    qed
  qed
qed

lemma matchItems_literal:
  "matchItems (map (\<lambda>c. (Lit c, One)) cs) s \<longleftrightarrow> s = cs"
proof (induction cs arbitrary: s)
  case Nil
  then show ?case by simp
next
  case (Cons c cs)
  then show ?case by (cases s) auto
qed

lemma matches_star_log:
  "matchesPattern p ''*.log'' = Some (\<exists>stem. p = stem @ ''.log'' \<and> CHR ''/'' \<notin> set stem)"
proof -
  have "matchesPattern p ''*.log'' =
      Some (matchItems ((NonSlash, Star) # map (\<lambda>c. (Lit c, One)) ''.log'') p)"
    by (simp add: filter_eval)
  then show ?thesis
    by (simp only: matchItems_star matchItems_literal) auto
qed

lemma matches_node_modules:
  "matchesPattern p ''node_modules'' = Some (p = ''node_modules'')"
proof -
  have "matchesPattern p ''node_modules'' =
      Some (matchItems (map (\<lambda>c. (Lit c, One)) ''node_modules'') p)"
    by (simp add: filter_eval)
  then show ?thesis by (simp only: matchItems_literal)
qed

text \<open>
  C8, as the claim states it, fails for the log file: \<open>*.log\<close> becomes
  \<open>^[^/]*\.log$\<close>, which is matched against the whole relative path, and
  \<open>project/debug.log\<close> has a slash before \<open>debug.log\<close>; nor does the path
  contain the text \<open>*.log\<close>. The file is not excluded and its job is built.
\<close>

theorem nested_log_counterexample:
  "isExcluded ''project/debug.log'' [''node_modules'', ''*.log''] = Some False
   \<and> syncFileJob (Some exampleTarget) True ''1:ab'' ''/ws/project/debug.log'' push =
       Job (createUploadJob ''/ws/project/debug.log'' ''/home/bjorn/Bjorn/project/debug.log'' 3 ''1:ab'')"
  by (simp add: filter_eval)

text \<open>
  C8, amended. With the exclusions \<open>node_modules\<close> and \<open>*.log\<close>, a path is
  excluded exactly when it contains \<open>node_modules\<close>, or is a name ending in
  \<open>.log\<close> with no slash in it, or contains the text \<open>*.log\<close>. So in the
  workspace \<open>/ws\<close> a change of \<open>project/node_modules/x.js\<close> builds no job,
  a change of \<open>debug.log\<close> at the top builds no job, and a change of
  \<open>project/debug.log\<close> or of \<open>project/src/app.ts\<close> builds exactly one job.
\<close>

theorem exclusion_scenario:
  "isExcluded p [''node_modules'', ''*.log''] =
     Some (includesStr p ''node_modules''
           \<or> (\<exists>stem. p = stem @ ''.log'' \<and> CHR ''/'' \<notin> set stem)
           \<or> includesStr p ''*.log'')
   \<and> syncFileJob (Some exampleTarget) True stamp ''/ws/project/node_modules/x.js'' direction = Ignored
   \<and> syncFileJob (Some exampleTarget) True stamp ''/ws/debug.log'' direction = Ignored
   \<and> syncFileJob (Some exampleTarget) True stamp ''/ws/project/debug.log'' direction =
       Job (case direction of
              push \<Rightarrow> createUploadJob ''/ws/project/debug.log''
                        ''/home/bjorn/Bjorn/project/debug.log'' 3 stamp
            | pull \<Rightarrow> createDownloadJob ''/ws/project/debug.log''
                        ''/home/bjorn/Bjorn/project/debug.log'' 3 stamp)
   \<and> syncFileJob (Some exampleTarget) True stamp ''/ws/project/src/app.ts'' direction =
       Job (case direction of
              push \<Rightarrow> createUploadJob ''/ws/project/src/app.ts''
                        ''/home/bjorn/Bjorn/project/src/app.ts'' 3 stamp
            | pull \<Rightarrow> createDownloadJob ''/ws/project/src/app.ts''
                        ''/home/bjorn/Bjorn/project/src/app.ts'' 3 stamp)"
proof (intro conjI)
  have "p = ''node_modules'' \<Longrightarrow> includesStr p ''node_modules''"
    by simp
  then show "isExcluded p [''node_modules'', ''*.log''] =
     Some (includesStr p ''node_modules''
           \<or> (\<exists>stem. p = stem @ ''.log'' \<and> CHR ''/'' \<notin> set stem)
           \<or> includesStr p ''*.log'')"
    by (auto simp add: matches_star_log matches_node_modules split: bool.splits)
next
  show "syncFileJob (Some exampleTarget) True stamp ''/ws/project/node_modules/x.js'' direction = Ignored"
    by (simp add: filter_eval)
next
  show "syncFileJob (Some exampleTarget) True stamp ''/ws/debug.log'' direction = Ignored"
    by (simp add: filter_eval)
next
  show "syncFileJob (Some exampleTarget) True stamp ''/ws/project/debug.log'' direction =
       Job (case direction of
              push \<Rightarrow> createUploadJob ''/ws/project/debug.log''
                        ''/home/bjorn/Bjorn/project/debug.log'' 3 stamp
            | pull \<Rightarrow> createDownloadJob ''/ws/project/debug.log''
                        ''/home/bjorn/Bjorn/project/debug.log'' 3 stamp)"
    by (cases direction) (simp_all add: filter_eval)
next
  show "syncFileJob (Some exampleTarget) True stamp ''/ws/project/src/app.ts'' direction =
       Job (case direction of
              push \<Rightarrow> createUploadJob ''/ws/project/src/app.ts''
                        ''/home/bjorn/Bjorn/project/src/app.ts'' 3 stamp
            | pull \<Rightarrow> createDownloadJob ''/ws/project/src/app.ts''
                        ''/home/bjorn/Bjorn/project/src/app.ts'' 3 stamp)"
    by (cases direction) (simp_all add: filter_eval)
qed

section \<open>The order in which jobs start\<close>

































section \<open>Properties of the offline buffer\<close>

subsection \<open>What a step leaves as it is\<close>











subsection \<open>The engine around the queue\<close>

lemma withQueue_fields [simp]:
  "queue (withQueue f e) = f (queue e)" "offlineJobs (withQueue f e) = offlineJobs e"
  by (simp_all add: withQueue_def Let_def)


lemma flush_fields [simp]:
  "queue (flush jobs e) = enqueueAll jobs (queue e)" "offlineJobs (flush jobs e) = offlineJobs e"
  by (induction jobs arbitrary: e) simp_all







subsection \<open>Parking and flushing\<close>




end
